theory Spec2Isabelle
  imports Main "HOL-Library.Word" "HOL-Library.Sublist"
begin

unbundle bit_operations_syntax

section \<open>The Paint Shop Pro decoder of package psp (decoder.go)\<close>

text \<open>
  The embedding follows decoder.go function by function. Conventions:
  \<^item> the caller's reader holds a finite sequence of bytes and gives each \<open>Read\<close> as many
    of them as the slice takes (as \<open>bytes.Reader\<close> does, which \<open>Fuzz\<close> passes); a reader
    that fails for another reason than the end of its input is not modelled;
  \<^item> the buffered reader \<open>d.r = bufio.NewReader(r)\<close> is two fields: \<open>inp\<close>, the bytes
    that \<open>d.r\<close> has not handed out yet, and \<open>ahead\<close>, how many of them \<open>d.r\<close> has
    already fetched from the caller's reader into its buffer of 4096 bytes;
  \<^item> Go's \<open>int\<close> is taken to be 64 bits wide and is modelled by \<open>int\<close>; every value the
    decoder computes in an \<open>int\<close> comes from at most two 32-bit fields, and the one product
    that could leave the range is the allocation size checked by \<open>pixelBufferLength\<close>;
  \<^item> \<open>d.error(err)\<close> is \<open>panic(err)\<close>: it is the abort \<open>Err err\<close>, which \<open>catchErrors\<close>
    turns into the returned error; a fault of the Go runtime (index or subslice bound out of
    range, nil dereference, a panic of the image package) is the abort \<open>RuntimePanic\<close>,
    which \<open>catchErrors\<close> raises again;
  \<^item> the debugging output of \<open>fmt.Printf\<close> is left out, and so is memory exhaustion.
\<close>

subsection \<open>Values\<close>

type_synonym byte = "8 word"

datatype error =
    FormatError string
  | UnsupportedError string "nat list"
  | io_EOF
  | io_ErrUnexpectedEOF
  | bufio_ErrNegativeCount
  | LibraryError nat

datatype abort = Err error | RuntimePanic

datatype colorModel = NilModel | GrayModel | Gray16Model | RGBAModel | RGBA64Model

datatype rgba = RGBA (rgba_R: byte) (rgba_G: byte) (rgba_B: byte) (rgba_A: byte)

record rectangle =
  MinX :: int
  MinY :: int
  MaxX :: int
  MaxY :: int

text \<open>\<open>image.Rect\<close> of the standard library: the corners are put in order.\<close>

definition Rect :: "int \<Rightarrow> int \<Rightarrow> int \<Rightarrow> int \<Rightarrow> rectangle" where
  "Rect x0 y0 x1 y1 =
     \<lparr>MinX = (if x0 > x1 then x1 else x0), MinY = (if y0 > y1 then y1 else y0),
      MaxX = (if x0 > x1 then x0 else x1), MaxY = (if y0 > y1 then y0 else y1)\<rparr>"

definition Dx :: "rectangle \<Rightarrow> int" where
  "Dx r = MaxX r - MinX r"

definition Dy :: "rectangle \<Rightarrow> int" where
  "Dy r = MaxY r - MinY r"

definition ZR :: rectangle where
  "ZR = \<lparr>MinX = 0, MinY = 0, MaxX = 0, MaxY = 0\<rparr>"

record creator =
  title :: "byte list"
  creationDate :: "32 word"
  modificationDate :: "32 word"
  artist :: "byte list"
  copyright :: "byte list"
  description :: "byte list"
  appID :: "32 word"
  appVersion :: "32 word"

record blockHeader =
  bh_id :: "16 word"
  dataLen :: "32 word"
  initLen :: "32 word"

record chunkHeader =
  fieldKeyword :: "16 word"
  ch_dataLen :: "32 word"

text \<open>
  The decoder. \<open>tmpBuf\<close> holds the contents of the scratch array; every array the
  decoder makes for it has its length as its capacity, so \<open>length (tmpBuf d)\<close> is both
  \<open>len(d.tmpBuf)\<close> and \<open>cap(d.tmpBuf)\<close>. \<open>tmpAddr\<close> is the identity of that array and
  \<open>retired\<close> keeps the arrays that were the scratch array before a \<open>make\<close> replaced
  them: a paletted image may still share one of them (see \<open>imgPaletted.Pix = buf\<close>).
\<close>

record decoder =
  inp :: "byte list"
  ahead :: nat
  versionMinor :: "16 word"
  versionMajor :: "16 word"
  width :: int
  height :: int
  res :: "64 word"
  resMetric :: byte
  comp_d :: "16 word"
  colorModel_d :: colorModel
  bitDepth :: "16 word"
  planeCount :: "16 word"
  colorCount :: "32 word"
  grayscale :: bool
  totalImageSize :: "32 word"
  activeLayer :: int
  layerCount :: "16 word"
  xDataTrnsIndex_d :: "16 word"
  creator_d :: creator
  palette :: "rgba list option"
  tmpBuf :: "byte list"
  tmpAddr :: nat
  retired :: "nat \<Rightarrow> byte list"

type_synonym 'a dec = "decoder \<Rightarrow> abort + ('a \<times> decoder)"

definition fileMagic :: "byte list" where
  "fileMagic = [80, 97, 105, 110, 116, 32, 83, 104, 111, 112, 32, 80, 114, 111, 32, 73,
                109, 97, 103, 101, 32, 70, 105, 108, 101, 10, 26, 0, 0, 0, 0, 0]"

definition blockMagic :: "byte list" where
  "blockMagic = [126, 66, 75, 0]"

definition chunkMagic :: "byte list" where
  "chunkMagic = [126, 70, 76, 0]"

text \<open>Block identifiers, bitmap types and compression codes (the \<open>iota\<close> constants).\<close>

definition imageBlock :: "16 word" where "imageBlock = 0"
definition creatorBlock :: "16 word" where "creatorBlock = 1"
definition colorBlock :: "16 word" where "colorBlock = 2"
definition layerStartBlock :: "16 word" where "layerStartBlock = 3"
definition layerBlock :: "16 word" where "layerBlock = 4"
definition channelBlock :: "16 word" where "channelBlock = 5"
definition extendedDataBlock :: "16 word" where "extendedDataBlock = 10"
definition compositeImageBankBlock :: "16 word" where "compositeImageBankBlock = 16"

definition dibImage :: "16 word" where "dibImage = 0"

definition compressionNone :: "16 word" where "compressionNone = 0"
definition compressionRLE :: "16 word" where "compressionRLE = 1"
definition compressionLZ77 :: "16 word" where "compressionLZ77 = 2"

subsection \<open>Sequencing\<close>

definition ret :: "'a \<Rightarrow> 'a dec" where
  "ret a d = Inr (a, d)"

definition andThen :: "'a dec \<Rightarrow> ('a \<Rightarrow> 'b dec) \<Rightarrow> 'b dec" where
  "andThen m f d = (case m d of Inl e \<Rightarrow> Inl e | Inr (a, d') \<Rightarrow> f a d')"

text \<open>\<open>d.error(err)\<close>: \<open>panic(err)\<close>.\<close>

definition d_error :: "error \<Rightarrow> 'a dec" where
  "d_error e d = Inl (Err e)"

definition runtimePanic :: "'a dec" where
  "runtimePanic d = Inl RuntimePanic"

text \<open>Reading fields of the decoder, assigning to them, and a step that has no effect on it.\<close>

definition gets :: "(decoder \<Rightarrow> 'a) \<Rightarrow> 'a dec" where
  "gets f d = Inr (f d, d)"

definition modify :: "(decoder \<Rightarrow> decoder) \<Rightarrow> unit dec" where
  "modify g d = Inr ((), g d)"

definition lift :: "abort + 'a \<Rightarrow> 'a dec" where
  "lift r d = (case r of Inl e \<Rightarrow> Inl e | Inr a \<Rightarrow> Inr (a, d))"

definition subslice :: "'a list \<Rightarrow> nat \<Rightarrow> nat \<Rightarrow> 'a list" where
  "subslice xs a b = take (b - a) (drop a xs)"

subsection \<open>Little-endian scalars\<close>

definition decodeUint16 :: "byte list \<Rightarrow> 16 word" where
  "decodeUint16 b = ucast (b ! 0) OR push_bit 8 (ucast (b ! 1))"

definition decodeUint32 :: "byte list \<Rightarrow> 32 word" where
  "decodeUint32 b = ucast (b ! 0) OR push_bit 8 (ucast (b ! 1)) OR push_bit 16 (ucast (b ! 2))
                    OR push_bit 24 (ucast (b ! 3))"

definition decodeUint64 :: "byte list \<Rightarrow> 64 word" where
  "decodeUint64 b = ucast (b ! 0) OR push_bit 8 (ucast (b ! 1)) OR push_bit 16 (ucast (b ! 2))
                    OR push_bit 24 (ucast (b ! 3)) OR push_bit 32 (ucast (b ! 4))
                    OR push_bit 40 (ucast (b ! 5)) OR push_bit 48 (ucast (b ! 6))
                    OR push_bit 56 (ucast (b ! 7))"

subsection \<open>The byte reader\<close>

text \<open>
  The buffer of \<open>bufio.NewReader\<close> has \<open>defaultBufSize\<close> bytes. \<open>fill\<close> on an empty
  buffer is one \<open>Read\<close> of the caller's reader into the whole buffer.
\<close>

definition bufSize :: nat where
  "bufSize = 4096"

definition fill :: "nat \<Rightarrow> nat" where
  "fill len = min bufSize len"

text \<open>
  What is left in the buffer after \<open>io.ReadFull(d.r, b)\<close>, which calls \<open>d.r.Read\<close> on the
  rest of \<open>b\<close> until it is full: \<open>need\<close> is the length of that rest, \<open>a\<close> the bytes in
  the buffer and \<open>len\<close> the bytes not handed out yet. \<open>Read\<close> copies what the buffer
  holds; when the buffer is empty it reads straight into \<open>b\<close> if that has room for a whole
  buffer, and otherwise fetches once into the buffer and copies from there.
\<close>

function readFullAhead :: "nat \<Rightarrow> nat \<Rightarrow> nat \<Rightarrow> nat" where
  "readFullAhead need a len =
     (if need = 0 \<or> len = 0 then a
      else if a = 0 then
        (if need \<ge> bufSize
         then readFullAhead (need - min need len) 0 (len - min need len)
         else readFullAhead (need - min need (fill len)) (fill len - min need (fill len))
                            (len - min need (fill len)))
      else readFullAhead (need - min need a) (a - min need a) (len - min need a))"
  by pat_completeness auto
termination
  by (relation "measure (\<lambda>(need, a, len). need)") (auto simp: fill_def bufSize_def)

declare readFullAhead.simps [simp del]

text \<open>
  What is left in the buffer after \<open>d.r.Discard(n)\<close> for \<open>n > 0\<close>: each turn fills the
  buffer when it is empty and drops what it holds, up to \<open>remain\<close>.
\<close>

function discardAhead :: "nat \<Rightarrow> nat \<Rightarrow> nat \<Rightarrow> nat" where
  "discardAhead remain a len =
     (if remain = 0 \<or> len = 0 then a
      else if a = 0
      then discardAhead (remain - min (fill len) remain) (fill len - min (fill len) remain)
                        (len - min (fill len) remain)
      else discardAhead (remain - min a remain) (a - min a remain) (len - min a remain))"
  by pat_completeness auto
termination
  by (relation "measure (\<lambda>(remain, a, len). remain)") (auto simp: fill_def bufSize_def)

declare discardAhead.simps [simp del]

text \<open>
  \<open>d.skip(n)\<close>: \<open>bufio.Reader.Discard\<close>. A negative count is \<open>ErrNegativeCount\<close>; when
  the input ends before \<open>n\<close> bytes were discarded the reader's error is \<open>io.EOF\<close>.
\<close>

definition skip :: "int \<Rightarrow> unit dec" where
  "skip n d =
     (if n < 0 then Inl (Err bufio_ErrNegativeCount)
      else if int (length (inp d)) < n then Inl (Err io_EOF)
      else Inr ((), d\<lparr>inp := drop (nat n) (inp d),
                       ahead := discardAhead (nat n) (ahead d) (length (inp d))\<rparr>))"

text \<open>
  \<open>d.read(d.tmpBuf[off : off+n])\<close>: the slice expression faults when it passes the
  capacity of the array; \<open>io.ReadFull\<close> of an empty subslice reads nothing and succeeds,
  gives \<open>io.EOF\<close> when no byte is left and \<open>io.ErrUnexpectedEOF\<close> when some but not
  all bytes were there.
\<close>

definition readAt :: "nat \<Rightarrow> nat \<Rightarrow> unit dec" where
  "readAt off n d =
     (if length (tmpBuf d) < off + n then Inl RuntimePanic
      else if n = 0 then Inr ((), d)
      else if inp d = [] then Inl (Err io_EOF)
      else if length (inp d) < n then Inl (Err io_ErrUnexpectedEOF)
      else Inr ((), d\<lparr>inp := drop n (inp d),
                       ahead := readFullAhead n (ahead d) (length (inp d)),
                       tmpBuf := take off (tmpBuf d) @ take n (inp d)
                                 @ drop (off + n) (tmpBuf d)\<rparr>))"

definition read :: "nat \<Rightarrow> unit dec" where
  "read n = readAt 0 n"

text \<open>\<open>d.r.ReadByte()\<close> fills the buffer when it is empty and takes one byte from it.\<close>

definition readByte :: "byte dec" where
  "readByte d =
     (case inp d of
        [] \<Rightarrow> Inl (Err io_EOF)
      | b # bs \<Rightarrow>
          Inr (b, d\<lparr>inp := bs,
                    ahead := (if ahead d = 0 then fill (length (inp d)) else ahead d) - 1\<rparr>))"

definition readUint16 :: "16 word dec" where
  "readUint16 = andThen (read 2) (\<lambda>_. gets (\<lambda>d. decodeUint16 (subslice (tmpBuf d) 0 2)))"

definition readUint32 :: "32 word dec" where
  "readUint32 = andThen (read 4) (\<lambda>_. gets (\<lambda>d. decodeUint32 (subslice (tmpBuf d) 0 4)))"

text \<open>\<open>d.tmpBuf = make([]byte, n)\<close>: a new zeroed array; the old one is retired.\<close>

definition makeTmpBuf :: "nat \<Rightarrow> decoder \<Rightarrow> decoder" where
  "makeTmpBuf n d = d\<lparr>retired := (retired d)(tmpAddr d := tmpBuf d),
                       tmpAddr := Suc (tmpAddr d),
                       tmpBuf := replicate n 0\<rparr>"

definition readString :: "int \<Rightarrow> byte list dec" where
  "readString n =
     (if n > 1024 then d_error (FormatError ''bad string length'')
      else if n < 0 then runtimePanic
      else andThen (gets (\<lambda>d. length (tmpBuf d))) (\<lambda>cap.
           andThen (if int cap < n then modify (makeTmpBuf (nat n)) else ret ()) (\<lambda>_.
           andThen (read (nat n)) (\<lambda>_. gets (\<lambda>d. subslice (tmpBuf d) 0 (nat n))))))"

definition readRect :: "rectangle dec" where
  "readRect = andThen (read 16) (\<lambda>_. gets (\<lambda>d.
     Rect (sint (decodeUint32 (subslice (tmpBuf d) 0 4)))
          (sint (decodeUint32 (subslice (tmpBuf d) 4 8)))
          (sint (decodeUint32 (subslice (tmpBuf d) 8 12)))
          (sint (decodeUint32 (subslice (tmpBuf d) 12 16)))))"

definition decodeChunkHeader :: "byte list \<Rightarrow> chunkHeader dec" where
  "decodeChunkHeader buf =
     (if subslice buf 0 4 \<noteq> chunkMagic then d_error (FormatError ''bad chunk magic'')
      else ret \<lparr>fieldKeyword = decodeUint16 (subslice buf 4 6),
                ch_dataLen = decodeUint32 (subslice buf 6 10)\<rparr>)"

definition readChunkHeader :: "chunkHeader dec" where
  "readChunkHeader =
     andThen (read 10) (\<lambda>_.
     andThen (gets (\<lambda>d. subslice (tmpBuf d) 0 10)) decodeChunkHeader)"

text \<open>\<open>readBlockHeader\<close>: ten bytes after version 3, fourteen up to it.\<close>

definition readBlockHeader :: "blockHeader dec" where
  "readBlockHeader =
     andThen (gets versionMajor) (\<lambda>v.
     andThen (read (if v > 3 then 10 else 14)) (\<lambda>_.
     andThen (gets tmpBuf) (\<lambda>tb.
       let bh = (if v > 3
                 then \<lparr>bh_id = 0, dataLen = decodeUint32 (subslice tb 6 10),
                       initLen = 0xDEADBEEF\<rparr>
                 else \<lparr>bh_id = 0, dataLen = decodeUint32 (subslice tb 10 14),
                       initLen = decodeUint32 (subslice tb 6 10)\<rparr>)
       in if subslice tb 0 4 \<noteq> blockMagic then d_error (FormatError ''bad block magic'')
          else ret (bh\<lparr>bh_id := decodeUint16 (subslice tb 4 6)\<rparr>))))"

subsection \<open>The header\<close>

text \<open>
  \<open>readHeader\<close>. The fields are cut out of \<open>buf\<close>, which is \<open>d.tmpBuf[:dataLen]\<close>
  without its first four bytes from version 4 on. A slice expression \<open>buf[a:b]\<close> is checked
  against the capacity (64 or 60, never passed), the index expressions \<open>buf[16]\<close> and
  \<open>buf[27]\<close> against the length (at least 34), so no field access faults; for
  \<open>dataLen < 42\<close> in a version 4 file the last fields are bytes of the scratch array
  behind the block body.
\<close>

definition colorModelFor :: "bool \<Rightarrow> 16 word \<Rightarrow> error + colorModel" where
  "colorModelFor gray depth =
     (if gray then
        (if depth = 8 then Inr GrayModel
         else if depth = 16 then Inr Gray16Model
         else Inl (UnsupportedError ''unsupported bit depth %d for grayscale image''
                     [unat depth]))
      else
        (if depth = 16 then Inr Gray16Model
         else if depth = 8 \<or> depth = 24 then Inr RGBAModel
         else if depth = 48 \<or> depth = 64 then Inr RGBA64Model
         else Inl (UnsupportedError ''unsupported bit depth %d'' [unat depth])))"

definition setAttributes :: "byte list \<Rightarrow> decoder \<Rightarrow> decoder" where
  "setAttributes buf d =
     d\<lparr>width := sint (decodeUint32 (subslice buf 0 4)),
       height := sint (decodeUint32 (subslice buf 4 8)),
       res := decodeUint64 (subslice buf 8 16),
       resMetric := buf ! 16,
       comp_d := decodeUint16 (subslice buf 17 19),
       bitDepth := decodeUint16 (subslice buf 19 21),
       planeCount := decodeUint16 (subslice buf 21 23),
       colorCount := decodeUint32 (subslice buf 23 27),
       grayscale := (buf ! 27 = 1),
       totalImageSize := decodeUint32 (subslice buf 28 32),
       activeLayer := sint (decodeUint32 (subslice buf 32 36)),
       layerCount := decodeUint16 (subslice buf 36 38)\<rparr>"

definition readHeader :: "unit dec" where
  "readHeader =
     andThen (read 36) (\<lambda>_.
     andThen (gets tmpBuf) (\<lambda>tb.
       if subslice tb 0 32 \<noteq> fileMagic then d_error (FormatError ''not a PSP file'')
       else
     andThen (modify (\<lambda>d. d\<lparr>versionMajor := decodeUint16 (subslice tb 32 34),
                               versionMinor := decodeUint16 (subslice tb 34 36)\<rparr>)) (\<lambda>_.
       if decodeUint16 (subslice tb 32 34) < 3
       then d_error (UnsupportedError ''only major versions >= 3 are supported'' [])
       else
     andThen readBlockHeader (\<lambda>bh.
       if bh_id bh \<noteq> imageBlock
       then d_error (FormatError ''missing general image attributes block'')
       else if dataLen bh < 38 \<or> dataLen bh > 64
       then d_error (FormatError ''invalid length for general image attributes block'')
       else
     andThen (read (unat (dataLen bh))) (\<lambda>_.
     andThen (gets (\<lambda>d. if versionMajor d \<ge> 4 then drop 4 (tmpBuf d) else tmpBuf d)) (\<lambda>buf.
     andThen (modify (setAttributes buf)) (\<lambda>_.
     andThen (gets comp_d) (\<lambda>c.
       if c \<noteq> compressionNone \<and> c \<noteq> compressionRLE \<and> c \<noteq> compressionLZ77
       then d_error (UnsupportedError ''unsupported compression (%04x)'' [unat c])
       else
     andThen (gets (\<lambda>d. colorModelFor (grayscale d) (bitDepth d))) (\<lambda>cm.
       case cm of
         Inl e \<Rightarrow> d_error e
       | Inr m \<Rightarrow> modify (\<lambda>d. d\<lparr>colorModel_d := m\<rparr>))))))))))"

text \<open>The zero value \<open>&decoder{r: bufio.NewReader(r), tmpBuf: make([]byte, 64)}\<close>.\<close>

definition zeroCreator :: creator where
  "zeroCreator = \<lparr>title = [], creationDate = 0, modificationDate = 0, artist = [],
                   copyright = [], description = [], appID = 0, appVersion = 0\<rparr>"

definition zeroDecoder :: "byte list \<Rightarrow> decoder" where
  "zeroDecoder xs =
     \<lparr>inp = xs, ahead = 0, versionMinor = 0, versionMajor = 0, width = 0, height = 0, res = 0,
      resMetric = 0, comp_d = 0, colorModel_d = NilModel, bitDepth = 0, planeCount = 0,
      colorCount = 0, grayscale = False, totalImageSize = 0, activeLayer = 0,
      layerCount = 0, xDataTrnsIndex_d = 0, creator_d = zeroCreator, palette = None,
      tmpBuf = replicate 64 0, tmpAddr = 0, retired = (\<lambda>_. [])\<rparr>"

definition newDecoder :: "byte list \<Rightarrow> abort + decoder" where
  "newDecoder xs = (case readHeader (zeroDecoder xs) of Inl e \<Rightarrow> Inl e
                    | Inr (_, d) \<Rightarrow> Inr d)"


subsection \<open>Metadata blocks\<close>

text \<open>
  \<open>decodeExtendedDataBlock\<close> and \<open>decodeCreatorBlock\<close>: \<open>for totalLen > 0\<close>, one
  chunk per turn; \<open>totalLen\<close> loses at least the ten bytes of the chunk header.
\<close>

lemma uint_gt_minus: "- 10 < uint (w :: 32 word)"
  by (rule less_le_trans [of _ 0]) simp_all

lemma uint_gt_minus_one: "- 1 < uint (w :: 'a::len word)"
  by (rule less_le_trans [of _ 0]) simp_all

function decodeExtendedDataBlock :: "int \<Rightarrow> unit dec" where
  "decodeExtendedDataBlock totalLen d =
     (if totalLen > 0 then
        (case readChunkHeader d of
           Inl e \<Rightarrow> Inl e
         | Inr (ch, d1) \<Rightarrow>
             (case skip (uint (ch_dataLen ch)) d1 of
                Inl e \<Rightarrow> Inl e
              | Inr (_, d2) \<Rightarrow>
                  decodeExtendedDataBlock (totalLen - (10 + uint (ch_dataLen ch))) d2))
      else Inr ((), d))"
  by pat_completeness auto
termination
  by (relation "measure (\<lambda>(totalLen, d). nat totalLen)") (auto simp: uint_gt_minus)

declare decodeExtendedDataBlock.simps [simp del]

definition setCreator :: "(creator \<Rightarrow> creator) \<Rightarrow> unit dec" where
  "setCreator f = modify (\<lambda>d. d\<lparr>creator_d := f (creator_d d)\<rparr>)"

definition creatorField :: "chunkHeader \<Rightarrow> unit dec" where
  "creatorField ch =
     (let k = fieldKeyword ch; n = uint (ch_dataLen ch) in
      if k = 0 then andThen (readString n) (\<lambda>s. setCreator (\<lambda>c. c\<lparr>title := s\<rparr>))
      else if k = 1 then andThen readUint32 (\<lambda>t. setCreator (\<lambda>c. c\<lparr>creationDate := t\<rparr>))
      else if k = 2 then andThen readUint32 (\<lambda>t. setCreator (\<lambda>c. c\<lparr>modificationDate := t\<rparr>))
      else if k = 3 then andThen (readString n) (\<lambda>s. setCreator (\<lambda>c. c\<lparr>artist := s\<rparr>))
      else if k = 4 then andThen (readString n) (\<lambda>s. setCreator (\<lambda>c. c\<lparr>copyright := s\<rparr>))
      else if k = 5 then andThen (readString n) (\<lambda>s. setCreator (\<lambda>c. c\<lparr>description := s\<rparr>))
      else if k = 6 then andThen readUint32 (\<lambda>v. setCreator (\<lambda>c. c\<lparr>appID := v\<rparr>))
      else if k = 7 then andThen readUint32 (\<lambda>v. setCreator (\<lambda>c. c\<lparr>appVersion := v\<rparr>))
      else skip n)"

function decodeCreatorBlock :: "int \<Rightarrow> unit dec" where
  "decodeCreatorBlock totalLen d =
     (if totalLen > 0 then
        (case readChunkHeader d of
           Inl e \<Rightarrow> Inl e
         | Inr (ch, d1) \<Rightarrow>
             (case creatorField ch d1 of
                Inl e \<Rightarrow> Inl e
              | Inr (_, d2) \<Rightarrow>
                  decodeCreatorBlock (totalLen - (10 + uint (ch_dataLen ch))) d2))
      else Inr ((), d))"
  by pat_completeness auto
termination
  by (relation "measure (\<lambda>(totalLen, d). nat totalLen)") (auto simp: uint_gt_minus)

declare decodeCreatorBlock.simps [simp del]

subsection \<open>The colour palette\<close>

text \<open>
  \<open>decodeColorBlock\<close>; its argument, the block's length, is not used. The loop
  \<open>for i := 0; i < nColors; i++\<close> fills one entry per index.
\<close>

definition paletteEntry :: "byte list \<Rightarrow> nat \<Rightarrow> rgba" where
  "paletteEntry buf i = RGBA (buf ! (i * 4 + 2)) (buf ! (i * 4 + 1)) (buf ! (i * 4)) 255"

definition decodeColorBlock :: "int \<Rightarrow> unit dec" where
  "decodeColorBlock ln =
     andThen (gets versionMajor) (\<lambda>v.
     andThen (if v \<ge> 4 then andThen readUint32 (\<lambda>_. ret ()) else ret ()) (\<lambda>_.
     andThen readUint32 (\<lambda>nc.
     andThen (gets (\<lambda>d. length (tmpBuf d))) (\<lambda>len.
     andThen (if len < unat nc * 4 then modify (makeTmpBuf (unat nc * 4)) else ret ()) (\<lambda>_.
     andThen (read (unat nc * 4)) (\<lambda>_.
       modify (\<lambda>d. d\<lparr>palette := Some (map (paletteEntry (tmpBuf d)) [0..<unat nc])\<rparr>)))))))"

subsection \<open>\<open>strings.TrimSpace\<close>\<close>

text \<open>
  The standard library's \<open>strings.TrimSpace\<close> removes, at both ends, the runes for which
  \<open>unicode.IsSpace\<close> holds. \<open>spaceRune\<close> lists their UTF-8 encodings: tab, line feed,
  vertical tab, form feed, carriage return, space, U+0085, U+00A0, U+1680, U+2000 to U+200A,
  U+2028, U+2029, U+202F, U+205F and U+3000. A byte that does not start one of them decodes
  to another rune (or to the error rune) and ends the trimming.
\<close>

definition spaceRune :: "byte list \<Rightarrow> bool" where
  "spaceRune bs =
     (case bs of
        [c] \<Rightarrow> c = 9 \<or> c = 10 \<or> c = 11 \<or> c = 12 \<or> c = 13 \<or> c = 32
      | [a, b] \<Rightarrow> a = 0xC2 \<and> (b = 0x85 \<or> b = 0xA0)
      | [a, b, c] \<Rightarrow>
          (a = 0xE1 \<and> b = 0x9A \<and> c = 0x80)
          \<or> (a = 0xE2 \<and> b = 0x80 \<and> (0x80 \<le> c \<and> c \<le> 0x8A \<or> c = 0xA8 \<or> c = 0xA9 \<or> c = 0xAF))
          \<or> (a = 0xE2 \<and> b = 0x81 \<and> c = 0x9F)
          \<or> (a = 0xE3 \<and> b = 0x80 \<and> c = 0x80)
      | _ \<Rightarrow> False)"

definition leadingSpace :: "byte list \<Rightarrow> nat" where
  "leadingSpace s = (if spaceRune (take 1 s) then 1 else if spaceRune (take 2 s) then 2
                     else if spaceRune (take 3 s) then 3 else 0)"

definition trailingSpace :: "byte list \<Rightarrow> nat" where
  "trailingSpace s =
     (if spaceRune (drop (length s - 1) s) then 1
      else if 2 \<le> length s \<and> spaceRune (drop (length s - 2) s) then 2
      else if 3 \<le> length s \<and> spaceRune (drop (length s - 3) s) then 3 else 0)"

lemma leadingSpace_Nil: "leadingSpace [] = 0"
  by (simp add: leadingSpace_def spaceRune_def)

lemma trailingSpace_Nil: "trailingSpace [] = 0"
  by (simp add: trailingSpace_def spaceRune_def)

function trimLeft :: "byte list \<Rightarrow> byte list" where
  "trimLeft s = (if leadingSpace s = 0 then s else trimLeft (drop (leadingSpace s) s))"
  by pat_completeness auto
termination
proof (relation "measure length", goal_cases)
  case 1
  show ?case by simp
next
  case (2 s)
  then have "s \<noteq> []" using leadingSpace_Nil by auto
  with 2 show ?case by simp
qed

declare trimLeft.simps [simp del]

function trimRight :: "byte list \<Rightarrow> byte list" where
  "trimRight s = (if trailingSpace s = 0 then s
                  else trimRight (take (length s - trailingSpace s) s))"
  by pat_completeness auto
termination
proof (relation "measure length", goal_cases)
  case 1
  show ?case by simp
next
  case (2 s)
  then have "s \<noteq> []" using trailingSpace_Nil by auto
  with 2 show ?case by simp
qed

declare trimRight.simps [simp del]

definition TrimSpace :: "byte list \<Rightarrow> byte list" where
  "TrimSpace s = trimRight (trimLeft s)"


subsection \<open>Layers and images\<close>

record layer =
  name :: "byte list"
  layerType :: byte
  rect :: rectangle
  savedRect :: rectangle
  opacity :: byte
  blendingMode :: byte
  visible :: bool
  transparencyProtected :: bool
  linkGroupID :: byte
  maskRectangle :: rectangle
  savedMaskRectangle :: rectangle
  maskLinked :: bool
  maskDisabled :: bool
  invertMaskOnBlend :: bool
  blendRangeCount :: "16 word"
  bitmapCount :: "16 word"
  channelCount :: "16 word"

definition zeroLayer :: layer where
  "zeroLayer = \<lparr>name = [], layerType = 0, rect = ZR, savedRect = ZR, opacity = 0,
     blendingMode = 0, visible = False, transparencyProtected = False, linkGroupID = 0,
     maskRectangle = ZR, savedMaskRectangle = ZR, maskLinked = False, maskDisabled = False,
     invertMaskOnBlend = False, blendRangeCount = 0, bitmapCount = 0, channelCount = 0\<rparr>"

text \<open>
  \<open>image.RGBA\<close>, \<open>image.RGBA64\<close> and \<open>image.Gray16\<close> are a pixel array, a stride and a
  rectangle. Only \<open>decodeLayers\<close> holds these arrays, so they are kept by value. The
  pixel array of the \<open>image.Paletted\<close> is a reference: the array \<open>NewPaletted\<close> made
  (\<open>Owned\<close>), or after \<open>imgPaletted.Pix = buf\<close> the first \<open>n\<close> bytes of the scratch array
  with identity \<open>a\<close> (\<open>Scratch a n\<close>).
\<close>

record pimage =
  Pix :: "byte list"
  Stride :: int
  Rect_i :: rectangle

datatype pixref = Owned "byte list" | Scratch nat nat

record paletted =
  pPix :: pixref
  pStride :: int
  pRect :: rectangle
  pPalette :: "rgba list"

datatype image =
    ImageRGBA pimage
  | ImageRGBA64 pimage
  | ImageGray16 pimage
  | ImagePaletted pimage "rgba list"

text \<open>The variable \<open>img\<close> of \<open>decodeLayers\<close> is nil or one of the four image pointers.\<close>

datatype imgref = RefNil | RefRGBA | RefRGBA64 | RefGray16 | RefPaletted

record lstate =
  layer_l :: layer
  img :: imgref
  imgRGBA :: "pimage option"
  imgRGBA64 :: "pimage option"
  imgGray16 :: "pimage option"
  imgPaletted :: "paletted option"
  layerBytes :: int
  channel :: int

definition zeroLstate :: lstate where
  "zeroLstate = \<lparr>layer_l = zeroLayer, img = RefNil, imgRGBA = None, imgRGBA64 = None,
     imgGray16 = None, imgPaletted = None, layerBytes = 0, channel = 0\<rparr>"

text \<open>
  \<open>image.NewRGBA\<close> and its siblings: \<open>pixelBufferLength\<close> panics when the byte count
  \<open>bytesPerPixel * Dx * Dy\<close> is negative or does not fit an \<open>int\<close>, and \<open>make\<close> panics
  (\<open>makeslice: len out of range\<close>) when the count passes \<open>maxAlloc\<close>, which is \<open>2 ^ 48\<close>
  bytes on a 64-bit platform.
\<close>

definition maxAlloc :: int where
  "maxAlloc = 2 ^ 48"

definition newImage :: "int \<Rightarrow> rectangle \<Rightarrow> abort + pimage" where
  "newImage bpp r =
     (if Dx r < 0 \<or> Dy r < 0 \<or> bpp * Dx r * Dy r > 2 ^ 63 - 1 then Inl RuntimePanic
      else if bpp * Dx r * Dy r > maxAlloc then Inl RuntimePanic
      else Inr \<lparr>Pix = replicate (nat (bpp * Dx r * Dy r)) 0, Stride = bpp * Dx r,
                Rect_i = r\<rparr>)"

text \<open>\<open>for i := 3; i < len(imgRGBA.Pix); i += 4 { imgRGBA.Pix[i] = 255 }\<close>\<close>

function fillAlpha :: "nat \<Rightarrow> byte list \<Rightarrow> byte list" where
  "fillAlpha i pix = (if i < length pix then fillAlpha (i + 4) (pix[i := 255]) else pix)"
  by pat_completeness auto
termination
  by (relation "measure (\<lambda>(i, pix). length pix - i)") auto

declare fillAlpha.simps [simp del]

text \<open>\<open>for i := 6; i < len(imgRGBA64.Pix); i += 8 { Pix[i] = 255; Pix[i+1] = 255 }\<close>\<close>

function fillAlpha64 :: "nat \<Rightarrow> byte list \<Rightarrow> abort + byte list" where
  "fillAlpha64 i pix =
     (if i < length pix then
        (if i + 1 < length pix then fillAlpha64 (i + 8) (pix[i := 255, i + 1 := 255])
         else Inl RuntimePanic)
      else Inr pix)"
  by pat_completeness auto
termination
  by (relation "measure (\<lambda>(i, pix). length pix - i)") auto

declare fillAlpha64.simps [simp del]

definition readLayerName :: "byte list dec" where
  "readLayerName =
     andThen (gets versionMajor) (\<lambda>v.
       if v \<ge> 4
       then andThen readUint32 (\<lambda>_.
            andThen readUint16 (\<lambda>nameLen. readString (uint nameLen)))
       else andThen (readString 256) (\<lambda>s. ret (TrimSpace s)))"

definition channelCountFor :: "layer \<Rightarrow> layer dec" where
  "channelCountFor l =
     andThen (gets palette) (\<lambda>pal.
     andThen (gets bitDepth) (\<lambda>depth.
       if pal \<noteq> None then ret (l\<lparr>channelCount := 1\<rparr>)
       else if depth = 1 \<or> depth = 8 \<or> depth = 16 then ret (l\<lparr>channelCount := 1\<rparr>)
       else if depth = 24 \<or> depth = 48 then ret (l\<lparr>channelCount := 3\<rparr>)
       else if depth = 32 \<or> depth = 64 then ret (l\<lparr>channelCount := 4\<rparr>)
       else d_error (FormatError ''unknown channel count'')))"

definition readCounts :: "layer \<Rightarrow> layer dec" where
  "readCounts l =
     andThen readUint16 (\<lambda>bc.
     andThen readUint16 (\<lambda>cc. ret (l\<lparr>bitmapCount := bc, channelCount := cc\<rparr>)))"

definition readLayerTail :: "layer \<Rightarrow> layer dec" where
  "readLayerTail l =
     andThen (gets versionMajor) (\<lambda>v.
       if v \<ge> 10 then andThen (skip 5) (\<lambda>_. channelCountFor l)
       else if v \<ge> 6 then andThen (skip 9) (\<lambda>_. readCounts l)
       else if v \<ge> 4 then andThen (skip 4) (\<lambda>_. readCounts l)
       else readCounts l)"

text \<open>The fields of the layer sub-block, in the order they are read.\<close>

definition readLayer :: "layer \<Rightarrow> layer dec" where
  "readLayer l =
     andThen readLayerName (\<lambda>nm.
     andThen readByte (\<lambda>lt.
     andThen readRect (\<lambda>r.
     andThen readRect (\<lambda>sr.
     andThen readByte (\<lambda>op.
     andThen readByte (\<lambda>bm.
     andThen readByte (\<lambda>vis.
     andThen readByte (\<lambda>tp.
     andThen readByte (\<lambda>lg.
     andThen readRect (\<lambda>mr.
     andThen readRect (\<lambda>smr.
     andThen readByte (\<lambda>ml.
     andThen readByte (\<lambda>md.
     andThen readByte (\<lambda>im.
     andThen readUint16 (\<lambda>brc.
     andThen (skip (4 * 2 * 5)) (\<lambda>_.
       readLayerTail
         (l\<lparr>name := nm, layerType := lt, rect := r, savedRect := sr, opacity := op,
            blendingMode := bm, visible := (vis \<noteq> 0), transparencyProtected := (tp \<noteq> 0),
            linkGroupID := lg, maskRectangle := mr, savedMaskRectangle := smr,
            maskLinked := (ml \<noteq> 0), maskDisabled := (md \<noteq> 0),
            invertMaskOnBlend := (im \<noteq> 0), blendRangeCount := brc\<rparr>)))))))))))))))))"

text \<open>
  The allocation of the output image for a layer with channels (\<open>channel = 0\<close> and the
  chain of \<open>if d.palette != nil ... else if d.bitDepth == ...\<close>).
\<close>

definition allocImage :: "lstate \<Rightarrow> lstate dec" where
  "allocImage ls0 =
     (let ls = ls0\<lparr>channel := 0\<rparr>; r = savedRect (layer_l ls0) in
      andThen (gets palette) (\<lambda>pal.
      andThen (gets bitDepth) (\<lambda>depth.
        case pal of
          Some pl \<Rightarrow>
            andThen (lift (newImage 1 r)) (\<lambda>p.
              ret (ls\<lparr>imgPaletted := Some \<lparr>pPix = Owned (Pix p), pStride = Stride p,
                                           pRect = Rect_i p, pPalette = pl\<rparr>,
                      img := RefPaletted,
                      layerBytes := (if depth = 1 then (Dx r * Dy r) div 8
                                     else Dx r * Dy r)\<rparr>))
        | None \<Rightarrow>
            if depth = 16 then
              andThen (lift (newImage 2 r)) (\<lambda>p.
                ret (ls\<lparr>imgGray16 := Some p, img := RefGray16,
                        layerBytes := Dx r * Dy r * 2\<rparr>))
            else if depth = 24 \<or> depth = 32 then
              andThen (lift (newImage 4 r)) (\<lambda>p.
                ret (ls\<lparr>imgRGBA := Some (p\<lparr>Pix := fillAlpha 3 (Pix p)\<rparr>),
                        img := RefRGBA, layerBytes := Dx r * Dy r\<rparr>))
            else if depth = 48 \<or> depth = 64 then
              andThen (lift (newImage 8 r)) (\<lambda>p.
              andThen (lift (fillAlpha64 6 (Pix p))) (\<lambda>px.
                ret (ls\<lparr>imgRGBA64 := Some (p\<lparr>Pix := px\<rparr>),
                        img := RefRGBA64, layerBytes := Dx r * Dy r * 2\<rparr>)))
            else ret ls)))"


subsection \<open>Channels\<close>

definition readChannelInfo :: "(int \<times> int \<times> 16 word \<times> 16 word) dec" where
  "readChannelInfo =
     andThen (gets versionMajor) (\<lambda>v.
     andThen (if v \<ge> 4
              then andThen readUint32 (\<lambda>headerLen.
                     if headerLen \<noteq> 16
                     then d_error (FormatError ''invalid channel block info len'')
                     else ret ())
              else ret ()) (\<lambda>_.
     andThen readUint32 (\<lambda>compressedLayerLen.
     andThen readUint32 (\<lambda>uncompressedImageLen.
     andThen readUint16 (\<lambda>bitmapType.
     andThen readUint16 (\<lambda>channelType.
       ret (uint compressedLayerLen, uint uncompressedImageLen, bitmapType, channelType)))))))"

text \<open>
  The run-length loop, \<open>for n := compressedLayerLen; n > 0; n-- { ... }\<close>, writing into
  \<open>buf = d.tmpBuf[:lb]\<close> from index \<open>j\<close>. A run stores byte by byte, \<open>buf[j] = b\<close>,
  and faults at the first index that is not below \<open>len(buf) = lb\<close>; a literal copy reads
  into \<open>buf[j : j+run]\<close>, which faults only when it passes the capacity of the array.
\<close>

function rle :: "int \<Rightarrow> nat \<Rightarrow> nat \<Rightarrow> decoder \<Rightarrow> abort + (nat \<times> decoder)" where
  "rle n j lb d =
     (if n > 0 then
        (case readByte d of
           Inl e \<Rightarrow> Inl e
         | Inr (c, d1) \<Rightarrow>
             if unat c > 128 then
               (case readByte d1 of
                  Inl e \<Rightarrow> Inl e
                | Inr (b, d2) \<Rightarrow>
                    if lb < j + (unat c - 128) then Inl RuntimePanic
                    else rle (n - 1 - 1) (j + (unat c - 128)) lb
                           (d2\<lparr>tmpBuf := take j (tmpBuf d2) @ replicate (unat c - 128) b
                                           @ drop (j + (unat c - 128)) (tmpBuf d2)\<rparr>))
             else
               (case readAt j (unat c) d1 of
                  Inl e \<Rightarrow> Inl e
                | Inr (_, d2) \<Rightarrow> rle (n - int (unat c) - 1) (j + unat c) lb d2))
      else Inr (j, d))"
  by pat_completeness auto
termination
  by (relation "measure (\<lambda>(n, j, lb, d). nat n)") (auto simp: uint_gt_minus_one)

declare rle.simps [simp del]

text \<open>
  The decompressor of \<open>compress/zlib\<close> is not part of this repository. It is the
  parameter \<open>zl\<close>: from the number of bytes in the buffer of \<open>d.r\<close>, the bytes the
  \<open>io.LimitReader\<close> can hand out (at most \<open>compressedLayerLen\<close>) and the number of
  bytes wanted, it gives an error, or the bytes, the number of input bytes taken from
  \<open>d.r\<close> and the number of bytes left in the buffer of \<open>d.r\<close>.
\<close>

type_synonym zlib = "nat \<Rightarrow> byte list \<Rightarrow> nat \<Rightarrow> error + (byte list \<times> nat \<times> nat)"

definition zlibRead :: "zlib \<Rightarrow> int \<Rightarrow> nat \<Rightarrow> unit dec" where
  "zlibRead zl compressedLayerLen lb d =
     (case zl (ahead d) (take (nat compressedLayerLen) (inp d)) lb of
        Inl e \<Rightarrow> Inl (Err e)
      | Inr (out, k, a) \<Rightarrow>
          Inr ((), d\<lparr>inp := drop k (inp d), ahead := a,
                     tmpBuf := take lb out @ drop (length (take lb out)) (tmpBuf d)\<rparr>))"

text \<open>\<open>switch d.comp\<close>, filling \<open>buf = d.tmpBuf[:lb]\<close>.\<close>

definition decompress :: "zlib \<Rightarrow> int \<Rightarrow> nat \<Rightarrow> unit dec" where
  "decompress zl compressedLayerLen lb =
     andThen (gets comp_d) (\<lambda>c.
       if c = compressionLZ77 then zlibRead zl compressedLayerLen lb
       else if c = compressionRLE then andThen (rle compressedLayerLen 0 lb) (\<lambda>_. ret ())
       else if c = compressionNone then read lb
       else ret ())"

text \<open>\<open>for i := int(channelType) - 1; i < len(Pix); i += 4 { Pix[i] = buf[i/4] }\<close>\<close>

function scatterRGBA :: "int \<Rightarrow> byte list \<Rightarrow> byte list \<Rightarrow> abort + byte list" where
  "scatterRGBA i pix buf =
     (if i < int (length pix) then
        (if i < 0 \<or> \<not> nat (i div 4) < length buf then Inl RuntimePanic
         else scatterRGBA (i + 4) (pix[nat i := buf ! nat (i div 4)]) buf)
      else Inr pix)"
  by pat_completeness auto
termination
  by (relation "measure (\<lambda>(i, pix, buf). nat (int (length pix) - i))") auto

declare scatterRGBA.simps [simp del]

text \<open>
  \<open>for i := (int(channelType) - 1) * 2; i < len(Pix); i += 8 {
     Pix[i] = buf[2*(i/8)+1]; Pix[i+1] = buf[2*(i/8)] }\<close>
\<close>

function scatterRGBA64 :: "int \<Rightarrow> byte list \<Rightarrow> byte list \<Rightarrow> abort + byte list" where
  "scatterRGBA64 i pix buf =
     (if i < int (length pix) then
        (if i < 0 \<or> \<not> nat (2 * (i div 8) + 1) < length buf \<or> \<not> nat i + 1 < length pix
         then Inl RuntimePanic
         else scatterRGBA64 (i + 8)
                (pix[nat i := buf ! nat (2 * (i div 8) + 1),
                     nat i + 1 := buf ! nat (2 * (i div 8))]) buf)
      else Inr pix)"
  by pat_completeness auto
termination
  by (relation "measure (\<lambda>(i, pix, buf). nat (int (length pix) - i))") auto

declare scatterRGBA64.simps [simp del]

text \<open>\<open>for i := 0; i < len(buf); i += 2 { Pix[i] = buf[i+1]; Pix[i+1] = buf[i] }\<close>\<close>

function scatterGray16 :: "nat \<Rightarrow> byte list \<Rightarrow> byte list \<Rightarrow> abort + byte list" where
  "scatterGray16 i pix buf =
     (if i < length buf then
        (if \<not> i + 1 < length buf \<or> \<not> i + 1 < length pix then Inl RuntimePanic
         else scatterGray16 (i + 2) (pix[i := buf ! (i + 1), i + 1 := buf ! i]) buf)
      else Inr pix)"
  by pat_completeness auto
termination
  by (relation "measure (\<lambda>(i, pix, buf). length buf - i)") auto

declare scatterGray16.simps [simp del]

text \<open>
  A store \<open>imgPaletted.Pix[i] = v\<close> into the pixel array of the paletted image, wherever
  that array lives.
\<close>

definition storePix :: "pixref \<Rightarrow> nat \<Rightarrow> byte \<Rightarrow> decoder \<Rightarrow> abort + (pixref \<times> decoder)" where
  "storePix px i v d =
     (case px of
        Owned bs \<Rightarrow> if i < length bs then Inr (Owned (bs[i := v]), d) else Inl RuntimePanic
      | Scratch a n \<Rightarrow>
          if \<not> i < n then Inl RuntimePanic
          else if a = tmpAddr d then Inr (px, d\<lparr>tmpBuf := (tmpBuf d)[i := v]\<rparr>)
          else Inr (px, d\<lparr>retired := (retired d)(a := (retired d a)[i := v])\<rparr>))"

text \<open>
  The one-bit case: \<open>for i, b := range buf { for j := 0; j < 8; j++ {
     imgPaletted.Pix[i*8+j] = b >> 7; b <<= 1 } }\<close>
\<close>

function unpackByte :: "nat \<Rightarrow> nat \<Rightarrow> byte \<Rightarrow> pixref \<Rightarrow> decoder \<Rightarrow> abort + (pixref \<times> decoder)"
  where
  "unpackByte j i b px d =
     (if j < 8 then
        (case storePix px (i * 8 + j) (drop_bit 7 b) d of
           Inl e \<Rightarrow> Inl e
         | Inr (px', d') \<Rightarrow> unpackByte (j + 1) i (push_bit 1 b) px' d')
      else Inr (px, d))"
  by pat_completeness auto
termination
  by (relation "measure (\<lambda>(j, i, b, px, d). 8 - j)") auto

declare unpackByte.simps [simp del]

function unpackBits :: "nat \<Rightarrow> nat \<Rightarrow> pixref \<Rightarrow> decoder \<Rightarrow> abort + (pixref \<times> decoder)" where
  "unpackBits i lb px d =
     (if i < lb then
        (case unpackByte 0 i (tmpBuf d ! i) px d of
           Inl e \<Rightarrow> Inl e
         | Inr (px', d') \<Rightarrow> unpackBits (i + 1) lb px' d')
      else Inr (px, d))"
  by pat_completeness auto
termination
  by (relation "measure (\<lambda>(i, lb, px, d). lb - i)") auto

declare unpackBits.simps [simp del]

text \<open>
  The scatter of the decompressed bytes \<open>buf = d.tmpBuf[:lb]\<close> into the image,
  \<open>if imgRGBA != nil ... else if imgRGBA64 != nil ... else if imgGray16 != nil ... else\<close>.
  With no image at all, \<open>imgPaletted\<close> is nil: its \<open>Pix\<close> cannot be assigned, and
  cannot be indexed once \<open>buf\<close> has a byte.
\<close>

definition scatter :: "16 word \<Rightarrow> nat \<Rightarrow> lstate \<Rightarrow> lstate dec" where
  "scatter channelType lb ls =
     andThen (gets (\<lambda>d. take lb (tmpBuf d))) (\<lambda>buf.
       case imgRGBA ls of
         Some p \<Rightarrow>
           andThen (lift (scatterRGBA (uint channelType - 1) (Pix p) buf)) (\<lambda>px.
             ret (ls\<lparr>imgRGBA := Some (p\<lparr>Pix := px\<rparr>)\<rparr>))
       | None \<Rightarrow>
           (case imgRGBA64 ls of
              Some p \<Rightarrow>
                andThen (lift (scatterRGBA64 ((uint channelType - 1) * 2) (Pix p) buf)) (\<lambda>px.
                  ret (ls\<lparr>imgRGBA64 := Some (p\<lparr>Pix := px\<rparr>)\<rparr>))
            | None \<Rightarrow>
                (case imgGray16 ls of
                   Some p \<Rightarrow>
                     andThen (lift (scatterGray16 0 (Pix p) buf)) (\<lambda>px.
                       ret (ls\<lparr>imgGray16 := Some (p\<lparr>Pix := px\<rparr>)\<rparr>))
                 | None \<Rightarrow>
                     andThen (gets bitDepth) (\<lambda>depth.
                       if depth = 1 then
                         (case imgPaletted ls of
                            None \<Rightarrow> if lb = 0 then ret ls else runtimePanic
                          | Some p \<Rightarrow>
                              andThen (unpackBits 0 lb (pPix p)) (\<lambda>px.
                                ret (ls\<lparr>imgPaletted := Some (p\<lparr>pPix := px\<rparr>)\<rparr>)))
                       else
                         (case imgPaletted ls of
                            None \<Rightarrow> runtimePanic
                          | Some p \<Rightarrow>
                              andThen (gets tmpAddr) (\<lambda>a.
                                ret (ls\<lparr>imgPaletted :=
                                          Some (p\<lparr>pPix := Scratch a lb\<rparr>)\<rparr>)))))))"

text \<open>The image behind \<open>img\<close> when \<open>decodeLayers\<close> returns it.\<close>

definition pixOf :: "decoder \<Rightarrow> pixref \<Rightarrow> byte list" where
  "pixOf d px =
     (case px of
        Owned bs \<Rightarrow> bs
      | Scratch a n \<Rightarrow> take n (if a = tmpAddr d then tmpBuf d else retired d a))"

definition imageOf :: "lstate \<Rightarrow> decoder \<Rightarrow> image option" where
  "imageOf ls d =
     (case img ls of
        RefNil \<Rightarrow> None
      | RefRGBA \<Rightarrow> map_option ImageRGBA (imgRGBA ls)
      | RefRGBA64 \<Rightarrow> map_option ImageRGBA64 (imgRGBA64 ls)
      | RefGray16 \<Rightarrow> map_option ImageGray16 (imgGray16 ls)
      | RefPaletted \<Rightarrow>
          map_option (\<lambda>p. ImagePaletted \<lparr>Pix = pixOf d (pPix p), Stride = pStride p,
                                         Rect_i = pRect p\<rparr> (pPalette p)) (imgPaletted ls))"


subsection \<open>The sub-blocks of the layer bank\<close>

text \<open>One turn of a \<open>for { ... }\<close> loop either goes on with a new state or returns.\<close>

datatype ('s, 'r) turn = Continue 's | Return 'r

text \<open>\<open>channel++; if channel == int(layer.channelCount) { return img, &layer }\<close>\<close>

definition countChannel :: "lstate \<Rightarrow> (lstate, image option \<times> layer) turn dec" where
  "countChannel ls =
     (let ls' = ls\<lparr>channel := channel ls + 1\<rparr> in
      if channel ls' = uint (channelCount (layer_l ls'))
      then andThen (gets (imageOf ls')) (\<lambda>im. ret (Return (im, layer_l ls')))
      else ret (Continue ls'))"

text \<open>\<open>case layerBlock\<close>: a layer without channels leaves the images as they are.\<close>

definition layerStep :: "lstate \<Rightarrow> (lstate, image option \<times> layer) turn dec" where
  "layerStep ls =
     andThen (readLayer (layer_l ls)) (\<lambda>l.
       if channelCount l = 0 then ret (Continue (ls\<lparr>layer_l := l\<rparr>))
       else andThen (allocImage (ls\<lparr>layer_l := l\<rparr>)) (\<lambda>ls'. ret (Continue ls')))"

text \<open>
  \<open>case channelBlock\<close>. The length skipped for a bitmap that is not the image is computed
  in \<open>uint32\<close>, \<open>bh.dataLen - 4*3 - 2*2\<close>, and wraps around below sixteen.
\<close>

definition channelStep ::
  "zlib \<Rightarrow> blockHeader \<Rightarrow> lstate \<Rightarrow> (lstate, image option \<times> layer) turn dec" where
  "channelStep zl bh ls =
     andThen readChannelInfo (\<lambda>(compressedLayerLen, uncompressedImageLen, bitmapType, channelType).
       if bitmapType \<noteq> dibImage then
         andThen (skip (uint (dataLen bh - 4 * 3 - 2 * 2))) (\<lambda>_. countChannel ls)
       else if layerBytes ls < 0 then runtimePanic
       else
         andThen (gets (\<lambda>d. length (tmpBuf d))) (\<lambda>cap.
         andThen (if cap < nat (layerBytes ls) then modify (makeTmpBuf (nat (layerBytes ls)))
                  else ret ()) (\<lambda>_.
         andThen (decompress zl compressedLayerLen (nat (layerBytes ls))) (\<lambda>_.
         andThen (scatter channelType (nat (layerBytes ls)) ls) countChannel))))"

definition decodeLayers_step ::
  "zlib \<Rightarrow> lstate \<Rightarrow> (lstate, image option \<times> layer) turn dec" where
  "decodeLayers_step zl ls =
     andThen readBlockHeader (\<lambda>bh.
       if bh_id bh = layerBlock then layerStep ls
       else if bh_id bh = channelBlock then channelStep zl bh ls
       else if bh_id bh = 33 then
         andThen (skip (uint (dataLen bh))) (\<lambda>_.
         andThen readUint32 (\<lambda>n.
         andThen (skip (uint n - 4)) (\<lambda>_. ret (Continue ls))))
       else andThen (skip (uint (dataLen bh))) (\<lambda>_. ret (Continue ls)))"

subsection \<open>What an operation leaves in place\<close>

text \<open>
  \<open>keeps R m\<close>: a successful run of \<open>m\<close> takes a decoder to one related to it by \<open>R\<close>.
  With \<open>R\<close> reflexive and transitive this is inherited along every way of putting
  operations together.
\<close>

definition keeps :: "(decoder \<Rightarrow> decoder \<Rightarrow> bool) \<Rightarrow> 'a dec \<Rightarrow> bool" where
  "keeps R m \<longleftrightarrow> (\<forall>d a d'. m d = Inr (a, d') \<longrightarrow> R d d')"

lemma keepsD: "keeps R m \<Longrightarrow> m d = Inr (a, d') \<Longrightarrow> R d d'"
  by (simp add: keeps_def)

lemma andThen_Inr:
  "andThen m f d = Inr r \<longleftrightarrow> (\<exists>a d'. m d = Inr (a, d') \<and> f a d' = Inr r)"
  by (auto simp: andThen_def split: sum.splits)

named_theorems resp

lemma keeps_andThen [resp]:
  assumes "transp R" and "keeps R m" and "\<And>a. keeps R (f a)"
  shows "keeps R (andThen m f)"
  unfolding keeps_def
proof (intro allI impI)
  fix d b d''
  assume "andThen m f d = Inr (b, d'')"
  then obtain a d' where m: "m d = Inr (a, d')" and f: "f a d' = Inr (b, d'')"
    by (auto simp: andThen_Inr)
  from keepsD [OF assms(2) m] keepsD [OF assms(3) f] assms(1)
  show "R d d''" by (auto dest: transpD)
qed

lemma keeps_ret [resp]: "reflp R \<Longrightarrow> keeps R (ret a)"
  by (auto simp: keeps_def ret_def dest: reflpD)

lemma keeps_gets [resp]: "reflp R \<Longrightarrow> keeps R (gets f)"
  by (auto simp: keeps_def gets_def dest: reflpD)

lemma keeps_lift [resp]: "reflp R \<Longrightarrow> keeps R (lift r)"
  by (auto simp: keeps_def lift_def dest: reflpD split: sum.splits)

lemma keeps_d_error [resp]: "keeps R (d_error e)"
  by (simp add: keeps_def d_error_def)

lemma keeps_runtimePanic [resp]: "keeps R runtimePanic"
  by (simp add: keeps_def runtimePanic_def)

lemma keeps_modify: "(\<And>d. R d (g d)) \<Longrightarrow> keeps R (modify g)"
  by (simp add: keeps_def modify_def)

lemma keeps_if [resp]: "keeps R m \<Longrightarrow> keeps R m' \<Longrightarrow> keeps R (if c then m else m')"
  by simp

lemma keeps_case_option [resp]:
  "keeps R m \<Longrightarrow> (\<And>x. keeps R (f x)) \<Longrightarrow> keeps R (case_option m f v)"
  by (cases v) simp_all

lemma keeps_case_sum [resp]:
  "(\<And>x. keeps R (f x)) \<Longrightarrow> (\<And>x. keeps R (g x)) \<Longrightarrow> keeps R (case_sum f g v)"
  by (cases v) simp_all

lemma keeps_case_prod [resp]:
  "(\<And>x y. keeps R (f x y)) \<Longrightarrow> keeps R (case_prod f v)"
  by (cases v) simp_all

lemma keeps_Let [resp]: "keeps R (f v) \<Longrightarrow> keeps R (Let v f)"
  by simp

definition suffixOf :: "decoder \<Rightarrow> decoder \<Rightarrow> bool" where
  "suffixOf d d' \<longleftrightarrow> (\<exists>k. inp d' = drop k (inp d))"

lemma reflp_suffixOf [simp]: "reflp suffixOf"
  by (auto simp: reflp_def suffixOf_def intro: exI [of _ 0])

lemma transp_suffixOf [simp]: "transp suffixOf"
  unfolding transp_def suffixOf_def
  by (metis drop_drop)

lemma inp_makeTmpBuf [simp]: "inp (makeTmpBuf n d) = inp d"
  by (simp add: makeTmpBuf_def)

lemma suffix_skip [resp]: "keeps suffixOf (skip n)"
  by (auto simp: keeps_def suffixOf_def skip_def split: if_splits)

lemma suffix_readAt [resp]: "keeps suffixOf (readAt off n)"
  by (auto simp: keeps_def suffixOf_def readAt_def split: if_splits intro: exI [of _ 0])

lemma suffix_read [resp]: "keeps suffixOf (read n)"
  by (simp add: read_def suffix_readAt)

lemma suffix_readByte [resp]: "keeps suffixOf readByte"
  by (auto simp: keeps_def suffixOf_def readByte_def split: list.splits intro: exI [of _ 1])

lemma suffix_makeTmpBuf [resp]: "keeps suffixOf (modify (makeTmpBuf n))"
  by (rule keeps_modify) (auto simp: suffixOf_def intro: exI [of _ 0])

lemma suffix_readUint16 [resp]: "keeps suffixOf readUint16"
  unfolding readUint16_def by (intro resp) simp_all

lemma suffix_readUint32 [resp]: "keeps suffixOf readUint32"
  unfolding readUint32_def by (intro resp) simp_all

lemma suffix_readRect [resp]: "keeps suffixOf readRect"
  unfolding readRect_def by (intro resp) simp_all

lemma suffix_readString [resp]: "keeps suffixOf (readString n)"
  unfolding readString_def by (intro resp) simp_all

lemma suffix_readBlockHeader [resp]: "keeps suffixOf readBlockHeader"
  unfolding readBlockHeader_def by (intro resp) simp_all

lemma suffix_readLayerName [resp]: "keeps suffixOf readLayerName"
  unfolding readLayerName_def by (intro resp) simp_all

lemma suffix_readLayer [resp]: "keeps suffixOf (readLayer l)"
  unfolding readLayer_def readLayerTail_def readCounts_def channelCountFor_def by (intro resp) simp_all

lemma suffix_allocImage [resp]: "keeps suffixOf (allocImage l)"
  unfolding allocImage_def by (intro resp) simp_all


lemma rle_induct [case_names stop eof1 eof2 overrun run literr lit]:
  assumes "\<And>n j lb d. \<not> n > 0 \<Longrightarrow> P n j lb d"
    and "\<And>n j lb d e. n > 0 \<Longrightarrow> readByte d = Inl e \<Longrightarrow> P n j lb d"
    and "\<And>n j lb d c d1 e. n > 0 \<Longrightarrow> readByte d = Inr (c, d1) \<Longrightarrow> unat c > 128
           \<Longrightarrow> readByte d1 = Inl e \<Longrightarrow> P n j lb d"
    and "\<And>n j lb d c d1 b d2. n > 0 \<Longrightarrow> readByte d = Inr (c, d1) \<Longrightarrow> unat c > 128
           \<Longrightarrow> readByte d1 = Inr (b, d2) \<Longrightarrow> lb < j + (unat c - 128) \<Longrightarrow> P n j lb d"
    and "\<And>n j lb d c d1 b d2. n > 0 \<Longrightarrow> readByte d = Inr (c, d1) \<Longrightarrow> unat c > 128
           \<Longrightarrow> readByte d1 = Inr (b, d2) \<Longrightarrow> \<not> lb < j + (unat c - 128)
           \<Longrightarrow> P (n - 1 - 1) (j + (unat c - 128)) lb
                 (d2\<lparr>tmpBuf := take j (tmpBuf d2) @ replicate (unat c - 128) b
                                           @ drop (j + (unat c - 128)) (tmpBuf d2)\<rparr>)
           \<Longrightarrow> P n j lb d"
    and "\<And>n j lb d c d1 e. n > 0 \<Longrightarrow> readByte d = Inr (c, d1) \<Longrightarrow> \<not> unat c > 128
           \<Longrightarrow> readAt j (unat c) d1 = Inl e \<Longrightarrow> P n j lb d"
    and "\<And>n j lb d c d1 d2. n > 0 \<Longrightarrow> readByte d = Inr (c, d1) \<Longrightarrow> \<not> unat c > 128
           \<Longrightarrow> readAt j (unat c) d1 = Inr ((), d2)
           \<Longrightarrow> P (n - int (unat c) - 1) (j + unat c) lb d2 \<Longrightarrow> P n j lb d"
  shows "P n j lb d"
proof (induction n j lb d rule: rle.induct)
  case (1 n j lb d)
  show ?case
  proof (cases "n > 0")
    case False
    then show ?thesis by (rule assms(1))
  next
    case n: True
    show ?thesis
    proof (cases "readByte d")
      case (Inl e)
      with n show ?thesis by (rule assms(2))
    next
      case (Inr p)
      obtain c d1 where p: "p = (c, d1)" by (cases p)
      note c = Inr [unfolded p]
      show ?thesis
      proof (cases "unat c > 128")
        case run: True
        show ?thesis
        proof (cases "readByte d1")
          case (Inl e)
          with n c run show ?thesis by (rule assms(3))
        next
          case (Inr q)
          obtain b d2 where q: "q = (b, d2)" by (cases q)
          note b = Inr [unfolded q]
          show ?thesis
          proof (cases "lb < j + (unat c - 128)")
            case True
            with n c run b show ?thesis by (rule assms(4))
          next
            case False
            from n c run b False "1.IH"(1) [OF n c refl run b refl False]
            show ?thesis by (rule assms(5))
          qed
        qed
      next
        case lit: False
        show ?thesis
        proof (cases "readAt j (unat c) d1")
          case (Inl e)
          with n c lit show ?thesis by (rule assms(6))
        next
          case (Inr q)
          obtain u d2 where q: "q = (u, d2)" by (cases q)
          note b = Inr [unfolded q]
          have b': "readAt j (unat c) d1 = Inr ((), d2)" using b by simp
          from n c lit b' "1.IH"(2) [OF n c refl lit b refl]
          show ?thesis by (rule assms(7))
        qed
      qed
    qed
  qed
qed

lemma rle_stop: "\<not> n > 0 \<Longrightarrow> rle n j lb d = Inr (j, d)"
  by (subst rle.simps) simp

lemma rle_eof1: "n > 0 \<Longrightarrow> readByte d = Inl e \<Longrightarrow> rle n j lb d = Inl e"
  by (subst rle.simps) simp

lemma rle_eof2:
  "n > 0 \<Longrightarrow> readByte d = Inr (c, d1) \<Longrightarrow> unat c > 128 \<Longrightarrow> readByte d1 = Inl e
   \<Longrightarrow> rle n j lb d = Inl e"
  by (subst rle.simps) simp

lemma rle_overrun:
  "n > 0 \<Longrightarrow> readByte d = Inr (c, d1) \<Longrightarrow> unat c > 128 \<Longrightarrow> readByte d1 = Inr (b, d2)
   \<Longrightarrow> lb < j + (unat c - 128) \<Longrightarrow> rle n j lb d = Inl RuntimePanic"
  by (subst rle.simps) simp

lemma rle_run:
  "n > 0 \<Longrightarrow> readByte d = Inr (c, d1) \<Longrightarrow> unat c > 128 \<Longrightarrow> readByte d1 = Inr (b, d2)
   \<Longrightarrow> \<not> lb < j + (unat c - 128)
   \<Longrightarrow> rle n j lb d = rle (n - 1 - 1) (j + (unat c - 128)) lb
         (d2\<lparr>tmpBuf := take j (tmpBuf d2) @ replicate (unat c - 128) b
                                           @ drop (j + (unat c - 128)) (tmpBuf d2)\<rparr>)"
  by (subst rle.simps) simp

lemma rle_literr:
  "n > 0 \<Longrightarrow> readByte d = Inr (c, d1) \<Longrightarrow> \<not> unat c > 128 \<Longrightarrow> readAt j (unat c) d1 = Inl e
   \<Longrightarrow> rle n j lb d = Inl e"
  by (subst rle.simps) simp

lemma rle_lit:
  "n > 0 \<Longrightarrow> readByte d = Inr (c, d1) \<Longrightarrow> \<not> unat c > 128
   \<Longrightarrow> readAt j (unat c) d1 = Inr ((), d2)
   \<Longrightarrow> rle n j lb d = rle (n - int (unat c) - 1) (j + unat c) lb d2"
  by (subst rle.simps) simp

lemma suffix_rle [resp]: "keeps suffixOf (rle n j lb)"
  unfolding keeps_def
proof (intro allI impI)
  fix d a d'
  show "rle n j lb d = Inr (a, d') \<Longrightarrow> suffixOf d d'"
  proof (induction n j lb d rule: rle_induct)
    case (stop n j lb d)
    then show ?case by (simp add: rle_stop reflpD)
  next
    case (eof1 n j lb d e)
    then show ?case by (simp add: rle_eof1)
  next
    case (eof2 n j lb d c d1 e)
    then show ?case by (simp add: rle_eof2)
  next
    case (overrun n j lb d c d1 b d2)
    then show ?case by (simp add: rle_overrun)
  next
    case (run n j lb d c d1 b d2)
    let ?d3 = "d2\<lparr>tmpBuf := take j (tmpBuf d2) @ replicate (unat c - 128) b
                                           @ drop (j + (unat c - 128)) (tmpBuf d2)\<rparr>"
    from run have "suffixOf ?d3 d'" by (simp add: rle_run)
    moreover have "suffixOf d2 ?d3" by (simp add: suffixOf_def exI [of _ 0])
    moreover have "suffixOf d d1" using keepsD [OF suffix_readByte run(2)] .
    moreover have "suffixOf d1 d2" using keepsD [OF suffix_readByte run(4)] .
    ultimately show ?case by (meson transp_suffixOf transpD)
  next
    case (literr n j lb d c d1 e)
    then show ?case by (simp add: rle_literr)
  next
    case (lit n j lb d c d1 d2)
    from lit have "suffixOf d2 d'" by (simp add: rle_lit)
    moreover have "suffixOf d d1" using keepsD [OF suffix_readByte lit(2)] .
    moreover have "suffixOf d1 d2" using keepsD [OF suffix_readAt lit(4)] .
    ultimately show ?case by (meson transp_suffixOf transpD)
  qed
qed

lemma suffix_zlibRead [resp]: "keeps suffixOf (zlibRead zl n lb)"
  by (auto simp: keeps_def suffixOf_def zlibRead_def split: sum.splits)

lemma suffix_decompress [resp]: "keeps suffixOf (decompress zl n lb)"
  unfolding decompress_def by (intro resp) simp_all

lemma inp_storePix: "storePix px i v d = Inr (px', d') \<Longrightarrow> inp d' = inp d"
  by (auto simp: storePix_def split: pixref.splits if_splits)

lemma inp_unpackByte: "unpackByte j i b px d = Inr (px', d') \<Longrightarrow> inp d' = inp d"
proof (induction j i b px d rule: unpackByte.induct)
  case (1 j i b px d)
  show ?case
  proof (cases "j < 8")
    case True
    with "1.prems" obtain px1 d1 where s: "storePix px (i * 8 + j) (drop_bit 7 b) d = Inr (px1, d1)"
      and r: "unpackByte (j + 1) i (push_bit 1 b) px1 d1 = Inr (px', d')"
      by (subst (asm) unpackByte.simps) (auto split: sum.splits)
    from "1.IH" [OF True s refl r] inp_storePix [OF s] show ?thesis by simp
  next
    case False
    with "1.prems" show ?thesis by (subst (asm) unpackByte.simps) simp
  qed
qed

lemma inp_unpackBits: "unpackBits i lb px d = Inr (px', d') \<Longrightarrow> inp d' = inp d"
proof (induction i lb px d rule: unpackBits.induct)
  case (1 i lb px d)
  show ?case
  proof (cases "i < lb")
    case True
    with "1.prems" obtain px1 d1 where s: "unpackByte 0 i (tmpBuf d ! i) px d = Inr (px1, d1)"
      and r: "unpackBits (i + 1) lb px1 d1 = Inr (px', d')"
      by (subst (asm) unpackBits.simps) (auto split: sum.splits)
    from "1.IH" [OF True s refl r] inp_unpackByte [OF s] show ?thesis by simp
  next
    case False
    with "1.prems" show ?thesis by (subst (asm) unpackBits.simps) simp
  qed
qed

lemma suffix_unpackBits [resp]: "keeps suffixOf (unpackBits i lb px)"
  by (auto simp: keeps_def suffixOf_def dest!: inp_unpackBits intro: exI [of _ 0])

lemma suffix_scatter [resp]: "keeps suffixOf (scatter ct lb ls)"
  unfolding scatter_def by (intro resp) simp_all

lemma suffix_countChannel [resp]: "keeps suffixOf (countChannel ls)"
  unfolding countChannel_def by (intro resp) simp_all

lemma suffix_layerStep [resp]: "keeps suffixOf (layerStep ls)"
  unfolding layerStep_def by (intro resp) simp_all

lemma suffix_readChannelInfo [resp]: "keeps suffixOf readChannelInfo"
  unfolding readChannelInfo_def by (intro resp) simp_all

lemma suffix_channelStep [resp]: "keeps suffixOf (channelStep zl bh ls)"
  unfolding channelStep_def by (intro resp) simp_all

text \<open>A block header is ten or fourteen bytes: reading it shortens the input.\<close>

lemma read_Inr: "read n d = Inr (u, d') \<Longrightarrow> inp d' = drop n (inp d) \<and> n \<le> length (inp d)"
  by (auto simp: read_def readAt_def split: if_splits)

lemma readBlockHeader_shorter:
  "readBlockHeader d = Inr (bh, d') \<Longrightarrow> length (inp d') < length (inp d)"
  by (auto simp: readBlockHeader_def andThen_Inr gets_def Let_def d_error_def ret_def
           split: if_splits dest!: read_Inr)

lemma suffixOf_length: "suffixOf d d' \<Longrightarrow> length (inp d') \<le> length (inp d)"
  by (auto simp: suffixOf_def)

lemma after_header_shorter:
  assumes "\<And>bh. keeps suffixOf (f bh)" and "andThen readBlockHeader f d = Inr (a, d')"
  shows "length (inp d') < length (inp d)"
proof -
  from assms(2) obtain bh d1 where h: "readBlockHeader d = Inr (bh, d1)"
    and f: "f bh d1 = Inr (a, d')" by (auto simp: andThen_Inr)
  from suffixOf_length [OF keepsD [OF assms(1) f]] readBlockHeader_shorter [OF h]
  show ?thesis by simp
qed

lemma decodeLayers_step_shorter:
  "decodeLayers_step zl ls d = Inr (t, d') \<Longrightarrow> length (inp d') < length (inp d)"
  unfolding decodeLayers_step_def
  by (erule after_header_shorter [rotated]) (intro resp; simp)

function decodeLayers_loop :: "zlib \<Rightarrow> lstate \<Rightarrow> (image option \<times> layer) dec" where
  "decodeLayers_loop zl ls d =
     (case decodeLayers_step zl ls d of
        Inl e \<Rightarrow> Inl e
      | Inr (Return r, d') \<Rightarrow> Inr (r, d')
      | Inr (Continue ls', d') \<Rightarrow> decodeLayers_loop zl ls' d')"
  by pat_completeness auto
termination
  by (relation "measure (\<lambda>(zl, ls, d). length (inp d))")
     (auto dest: decodeLayers_step_shorter)

declare decodeLayers_loop.simps [simp del]

definition decodeLayers :: "zlib \<Rightarrow> (image option \<times> layer) dec" where
  "decodeLayers zl = decodeLayers_loop zl zeroLstate"

lemma suffix_decodeLayers_loop [resp]: "keeps suffixOf (decodeLayers_loop zl ls)"
  unfolding keeps_def
proof (intro allI impI)
  fix d a d'
  show "decodeLayers_loop zl ls d = Inr (a, d') \<Longrightarrow> suffixOf d d'"
  proof (induction zl ls d rule: decodeLayers_loop.induct)
    case (1 zl ls d)
    from "1.prems" obtain t d1 where s: "decodeLayers_step zl ls d = Inr (t, d1)"
      by (subst (asm) decodeLayers_loop.simps) (auto split: sum.splits)
    have "keeps suffixOf (decodeLayers_step zl ls)"
      unfolding decodeLayers_step_def by (intro resp; simp)
    from keepsD [OF this s] have s1: "suffixOf d d1" .
    show ?case
    proof (cases t)
      case (Return r)
      with "1.prems" s s1 show ?thesis by (subst (asm) decodeLayers_loop.simps) simp
    next
      case (Continue ls')
      with "1.prems" s have "decodeLayers_loop zl ls' d1 = Inr (a, d')"
        by (subst (asm) decodeLayers_loop.simps) simp
      from "1.IH" [OF s refl Continue this] s1
      show ?thesis by (meson transp_suffixOf transpD)
    qed
  qed
qed

subsection \<open>The blocks of the file\<close>

lemma suffix_readChunkHeader [resp]: "keeps suffixOf readChunkHeader"
  unfolding readChunkHeader_def decodeChunkHeader_def by (intro resp; simp)

lemma suffix_decodeExtendedDataBlock [resp]: "keeps suffixOf (decodeExtendedDataBlock n)"
  unfolding keeps_def
proof (intro allI impI)
  fix d a d'
  show "decodeExtendedDataBlock n d = Inr (a, d') \<Longrightarrow> suffixOf d d'"
  proof (induction n d rule: decodeExtendedDataBlock.induct)
    case (1 totalLen d)
    show ?case
    proof (cases "totalLen > 0")
      case False
      with "1.prems" show ?thesis
        by (subst (asm) decodeExtendedDataBlock.simps) (simp add: reflpD)
    next
      case True
      with "1.prems" obtain ch d1 u d2 where h: "readChunkHeader d = Inr (ch, d1)"
        and k: "skip (uint (ch_dataLen ch)) d1 = Inr (u, d2)"
        and r: "decodeExtendedDataBlock (totalLen - (10 + uint (ch_dataLen ch))) d2
                  = Inr (a, d')"
        by (subst (asm) decodeExtendedDataBlock.simps) (auto split: sum.splits)
      from keepsD [OF suffix_readChunkHeader h] keepsD [OF suffix_skip k]
        "1.IH" [OF True h refl k refl r]
      show ?thesis by (meson transp_suffixOf transpD)
    qed
  qed
qed

lemma suffix_creatorField [resp]: "keeps suffixOf (creatorField ch)"
  unfolding creatorField_def setCreator_def
  by (intro resp keeps_modify; simp add: suffixOf_def exI [of _ 0])

lemma suffix_decodeCreatorBlock [resp]: "keeps suffixOf (decodeCreatorBlock n)"
  unfolding keeps_def
proof (intro allI impI)
  fix d a d'
  show "decodeCreatorBlock n d = Inr (a, d') \<Longrightarrow> suffixOf d d'"
  proof (induction n d rule: decodeCreatorBlock.induct)
    case (1 totalLen d)
    show ?case
    proof (cases "totalLen > 0")
      case False
      with "1.prems" show ?thesis
        by (subst (asm) decodeCreatorBlock.simps) (simp add: reflpD)
    next
      case True
      with "1.prems" obtain ch d1 u d2 where h: "readChunkHeader d = Inr (ch, d1)"
        and k: "creatorField ch d1 = Inr (u, d2)"
        and r: "decodeCreatorBlock (totalLen - (10 + uint (ch_dataLen ch))) d2
                  = Inr (a, d')"
        by (subst (asm) decodeCreatorBlock.simps) (auto split: sum.splits)
      from keepsD [OF suffix_readChunkHeader h] keepsD [OF suffix_creatorField k]
        "1.IH" [OF True h refl k refl r]
      show ?thesis by (meson transp_suffixOf transpD)
    qed
  qed
qed

lemma suffix_decodeColorBlock [resp]: "keeps suffixOf (decodeColorBlock n)"
  unfolding decodeColorBlock_def
  by (intro resp keeps_modify; simp add: suffixOf_def exI [of _ 0])

lemma suffix_decodeLayers [resp]: "keeps suffixOf (decodeLayers zl)"
  by (simp add: decodeLayers_def suffix_decodeLayers_loop)

text \<open>
  One turn of the loop of \<open>decode\<close>. The composite image bank falls through to the
  default case; the layer bank ends the loop with the image of \<open>decodeLayers\<close>.
\<close>

definition decode_step :: "zlib \<Rightarrow> (unit, image option) turn dec" where
  "decode_step zl =
     andThen readBlockHeader (\<lambda>bh.
       if bh_id bh = extendedDataBlock then
         andThen (decodeExtendedDataBlock (uint (dataLen bh))) (\<lambda>_. ret (Continue ()))
       else if bh_id bh = creatorBlock then
         andThen (decodeCreatorBlock (uint (dataLen bh))) (\<lambda>_. ret (Continue ()))
       else if bh_id bh = colorBlock then
         andThen (decodeColorBlock (uint (dataLen bh))) (\<lambda>_. ret (Continue ()))
       else if bh_id bh = layerStartBlock then
         andThen (decodeLayers zl) (\<lambda>(img, l). ret (Return img))
       else andThen (skip (uint (dataLen bh))) (\<lambda>_. ret (Continue ())))"

lemma suffix_decode_step [resp]: "keeps suffixOf (decode_step zl)"
  unfolding decode_step_def by (intro resp; simp)

lemma decode_step_shorter:
  "decode_step zl d = Inr (t, d') \<Longrightarrow> length (inp d') < length (inp d)"
  unfolding decode_step_def
  by (erule after_header_shorter [rotated]) (intro resp; simp)

function decode :: "zlib \<Rightarrow> image option dec" where
  "decode zl d =
     (case decode_step zl d of
        Inl e \<Rightarrow> Inl e
      | Inr (Return i, d') \<Rightarrow> Inr (i, d')
      | Inr (Continue u, d') \<Rightarrow> decode zl d')"
  by pat_completeness auto
termination
  by (relation "measure (\<lambda>(zl, d). length (inp d))") (auto dest: decode_step_shorter)

declare decode.simps [simp del]

subsection \<open>\<open>Decode\<close> and \<open>DecodeConfig\<close>\<close>

text \<open>
  Both have named results, zero at the start, and \<open>defer catchErrors(&err)\<close>. A panic
  leaves the results as they are; \<open>catchErrors\<close> raises a runtime error again and
  stores any other panic value in \<open>err\<close>. Without a panic the \<open>return\<close> statement
  sets the results, the error to nil.
\<close>

datatype 'a result = Returned 'a "error option" | Panicked

definition catchErrors :: "'a \<Rightarrow> abort \<Rightarrow> 'a result" where
  "catchErrors zero a = (case a of RuntimePanic \<Rightarrow> Panicked | Err e \<Rightarrow> Returned zero (Some e))"

definition Decode :: "zlib \<Rightarrow> byte list \<Rightarrow> image option result" where
  "Decode zl r =
     (case newDecoder r of
        Inl a \<Rightarrow> catchErrors None a
      | Inr d \<Rightarrow>
          (case decode zl d of
             Inl a \<Rightarrow> catchErrors None a
           | Inr (i, d') \<Rightarrow> Returned i None))"

record config =
  ColorModel :: colorModel
  Width :: int
  Height :: int

definition DecodeConfig :: "byte list \<Rightarrow> config result" where
  "DecodeConfig r =
     (case newDecoder r of
        Inl a \<Rightarrow> catchErrors \<lparr>ColorModel = NilModel, Width = 0, Height = 0\<rparr> a
      | Inr d \<Rightarrow>
          Returned \<lparr>ColorModel = colorModel_d d, Width = width d, Height = height d\<rparr> None)"

subsection \<open>The exact effect of the reads\<close>

lemma readFullAhead_0 [simp]: "readFullAhead 0 a len = a"
  by (simp add: readFullAhead.simps)

lemma discardAhead_0 [simp]: "discardAhead 0 a len = a"
  by (simp add: discardAhead.simps)

lemma read_effect:
  "read n d = Inr (u, d') \<Longrightarrow>
     n \<le> length (inp d) \<and> n \<le> length (tmpBuf d)
     \<and> d' = d\<lparr>inp := drop n (inp d), ahead := readFullAhead n (ahead d) (length (inp d)),
              tmpBuf := take n (inp d) @ drop n (tmpBuf d)\<rparr>"
  by (auto simp: read_def readAt_def split: if_splits)

lemma subslice_take_append: "b \<le> n \<Longrightarrow> n \<le> length xs \<Longrightarrow> subslice (take n xs @ ys) a b = subslice xs a b"
  by (simp add: subslice_def take_drop min_def)

lemma readUint32_effect:
  "readUint32 d = Inr (v, d') \<Longrightarrow>
     4 \<le> length (inp d) \<and> v = decodeUint32 (subslice (inp d) 0 4)
     \<and> d' = d\<lparr>inp := drop 4 (inp d), ahead := readFullAhead 4 (ahead d) (length (inp d)),
              tmpBuf := take 4 (inp d) @ drop 4 (tmpBuf d)\<rparr>"
  by (auto simp: readUint32_def andThen_Inr gets_def subslice_take_append dest!: read_effect)

lemma readUint16_effect:
  "readUint16 d = Inr (v, d') \<Longrightarrow>
     2 \<le> length (inp d) \<and> v = decodeUint16 (subslice (inp d) 0 2)
     \<and> d' = d\<lparr>inp := drop 2 (inp d), ahead := readFullAhead 2 (ahead d) (length (inp d)),
              tmpBuf := take 2 (inp d) @ drop 2 (tmpBuf d)\<rparr>"
  by (auto simp: readUint16_def andThen_Inr gets_def subslice_take_append dest!: read_effect)

lemma gets_Inr [simp]: "gets f d = Inr (a, d') \<longleftrightarrow> a = f d \<and> d' = d"
  by (auto simp: gets_def)

lemma ret_Inr [simp]: "ret x d = Inr (a, d') \<longleftrightarrow> a = x \<and> d' = d"
  by (auto simp: ret_def)

lemma modify_Inr [simp]: "modify g d = Inr (a, d') \<longleftrightarrow> d' = g d"
  by (auto simp: modify_def)

lemma d_error_Inr [simp]: "d_error e d \<noteq> Inr r"
  by (simp add: d_error_def)

lemma runtimePanic_Inr [simp]: "runtimePanic d \<noteq> Inr r"
  by (simp add: runtimePanic_def)

subsection \<open>Strings\<close>

lemma readString_effect:
  "readString n d = Inr (s, d') \<Longrightarrow>
     0 \<le> n \<and> nat n \<le> length (inp d) \<and> s = take (nat n) (inp d) \<and> inp d' = drop (nat n) (inp d)"
  by (auto simp: readString_def andThen_Inr subslice_def makeTmpBuf_def split: if_splits dest!: read_effect)

lemma trimLeft_suffix: "\<exists>l. s = l @ trimLeft s"
proof (induction s rule: trimLeft.induct)
  case (1 s)
  show ?case
  proof (cases "leadingSpace s = 0")
    case True
    then show ?thesis by (subst trimLeft.simps) simp
  next
    case False
    from "1.IH" [OF False] obtain l where "drop (leadingSpace s) s = l @ trimLeft (drop (leadingSpace s) s)" by blast
    then have "s = (take (leadingSpace s) s @ l) @ trimLeft (drop (leadingSpace s) s)"
      by (metis append.assoc append_take_drop_id)
    with False show ?thesis by (subst trimLeft.simps) (simp only: if_False, blast)
  qed
qed

lemma trimRight_prefix: "\<exists>r. s = trimRight s @ r"
proof (induction s rule: trimRight.induct)
  case (1 s)
  show ?case
  proof (cases "trailingSpace s = 0")
    case True
    then show ?thesis by (subst trimRight.simps) simp
  next
    case False
    let ?t = "take (length s - trailingSpace s) s"
    from "1.IH" [OF False] obtain r where "?t = trimRight ?t @ r" by blast
    then have "s = trimRight ?t @ (r @ drop (length s - trailingSpace s) s)"
      by (metis append.assoc append_take_drop_id)
    with False show ?thesis by (subst trimRight.simps) (simp only: if_False, blast)
  qed
qed

lemma leadingSpace_trimLeft: "leadingSpace (trimLeft s) = 0"
proof (induction s rule: trimLeft.induct)
  case (1 s)
  show ?case
  proof (cases "leadingSpace s = 0")
    case True
    then show ?thesis by (subst trimLeft.simps) simp
  next
    case False
    with "1.IH" [OF False] show ?thesis by (subst trimLeft.simps) simp
  qed
qed

lemma trailingSpace_trimRight: "trailingSpace (trimRight s) = 0"
proof (induction s rule: trimRight.induct)
  case (1 s)
  show ?case
  proof (cases "trailingSpace s = 0")
    case True
    then show ?thesis by (subst trimRight.simps) simp
  next
    case False
    with "1.IH" [OF False] show ?thesis by (subst trimRight.simps) simp
  qed
qed

lemma spaceRune_length: "spaceRune bs \<Longrightarrow> 1 \<le> length bs \<and> length bs \<le> 3"
  by (auto simp: spaceRune_def split: list.splits)

lemma leadingSpace_zero_iff:
  "leadingSpace s = 0 \<longleftrightarrow> \<not> spaceRune (take 1 s) \<and> \<not> spaceRune (take 2 s) \<and> \<not> spaceRune (take 3 s)"
  by (simp add: leadingSpace_def)

lemma take_prefix_cases:
  "take k (p @ r) = take k p \<or> (length p < k \<and> take k (p @ r) = p @ take (k - length p) r)"
  by (cases "k \<le> length p") auto

lemma leadingSpace_prefix:
  assumes "leadingSpace (p @ r) = 0"
  shows "leadingSpace p = 0"
proof -
  have n: "\<not> spaceRune (take k (p @ r))" if "k \<in> {1, 2, 3}" for k
    using assms that by (auto simp: leadingSpace_zero_iff)
  have "\<not> spaceRune (take k p)" if k: "k \<in> {1, 2, 3}" for k
  proof (cases "k \<le> length p")
    case True
    with n [OF k] show ?thesis by simp
  next
    case False
    then have tp: "take k p = p" by simp
    show ?thesis
    proof
      assume s: "spaceRune (take k p)"
      with tp spaceRune_length have "length p \<in> {1, 2, 3}" by fastforce
      from n [OF this] have "\<not> spaceRune p" by simp
      with s tp show False by simp
    qed
  qed
  then show ?thesis by (simp add: leadingSpace_zero_iff)
qed

lemma TrimSpace_props:
  "leadingSpace (TrimSpace s) = 0 \<and> trailingSpace (TrimSpace s) = 0
   \<and> (\<exists>l r. s = l @ TrimSpace s @ r)"
proof -
  obtain l where l: "s = l @ trimLeft s" using trimLeft_suffix by blast
  obtain r where r: "trimLeft s = trimRight (trimLeft s) @ r" using trimRight_prefix by blast
  have "leadingSpace (trimRight (trimLeft s) @ r) = 0" using leadingSpace_trimLeft r by metis
  then have "leadingSpace (trimRight (trimLeft s)) = 0" by (rule leadingSpace_prefix)
  moreover have "s = l @ trimRight (trimLeft s) @ r" using l r by metis
  ultimately show ?thesis by (auto simp: TrimSpace_def trailingSpace_trimRight)
qed

subsection \<open>The fields that stay as they are\<close>

text \<open>The decoder without its buffers.\<close>

definition fields :: "decoder \<Rightarrow> decoder" where
  "fields d = d\<lparr>inp := [], ahead := 0, tmpBuf := [], tmpAddr := 0, retired := (\<lambda>_. [])\<rparr>"

definition sameFields :: "decoder \<Rightarrow> decoder \<Rightarrow> bool" where
  "sameFields d d' \<longleftrightarrow> fields d' = fields d"

lemma reflp_sameFields [simp]: "reflp sameFields"
  by (simp add: reflp_def sameFields_def)

lemma transp_sameFields [simp]: "transp sameFields"
  by (simp add: transp_def sameFields_def)

lemma sameFields_updates [simp]:
  "sameFields d (d\<lparr>inp := i\<rparr>)" "sameFields d (d\<lparr>tmpBuf := t\<rparr>)"
  "sameFields d (d\<lparr>inp := i, tmpBuf := t\<rparr>)"
  "sameFields d (d\<lparr>inp := i, ahead := a\<rparr>)"
  "sameFields d (d\<lparr>inp := i, ahead := a, tmpBuf := t\<rparr>)"
  "sameFields d (makeTmpBuf n d)"
  by (simp_all add: sameFields_def fields_def makeTmpBuf_def)

lemma sameFields_trans: "sameFields a b \<Longrightarrow> sameFields b c \<Longrightarrow> sameFields a c"
  by (simp add: sameFields_def)

lemma same_skip [resp]: "keeps sameFields (skip n)"
  by (auto simp: keeps_def skip_def split: if_splits)

lemma same_readAt [resp]: "keeps sameFields (readAt off n)"
  by (auto simp: keeps_def readAt_def reflpD split: if_splits)

lemma same_read [resp]: "keeps sameFields (read n)"
  by (simp add: read_def same_readAt)

lemma same_readByte [resp]: "keeps sameFields readByte"
  by (auto simp: keeps_def readByte_def split: list.splits)

lemma same_makeTmpBuf [resp]: "keeps sameFields (modify (makeTmpBuf n))"
  by (rule keeps_modify) simp

lemma same_readUint16 [resp]: "keeps sameFields readUint16"
  unfolding readUint16_def by (intro resp) simp_all

lemma same_readUint32 [resp]: "keeps sameFields readUint32"
  unfolding readUint32_def by (intro resp) simp_all

lemma same_readRect [resp]: "keeps sameFields readRect"
  unfolding readRect_def by (intro resp) simp_all

lemma same_readString [resp]: "keeps sameFields (readString n)"
  unfolding readString_def by (intro resp) simp_all

lemma same_readBlockHeader [resp]: "keeps sameFields readBlockHeader"
  unfolding readBlockHeader_def by (intro resp) simp_all

lemma same_readLayer [resp]: "keeps sameFields (readLayer l)"
  unfolding readLayer_def readLayerName_def readLayerTail_def readCounts_def channelCountFor_def
  by (intro resp) simp_all

lemma same_allocImage [resp]: "keeps sameFields (allocImage l)"
  unfolding allocImage_def by (intro resp) simp_all

lemma same_readChannelInfo [resp]: "keeps sameFields readChannelInfo"
  unfolding readChannelInfo_def by (intro resp) simp_all

lemma same_rle [resp]: "keeps sameFields (rle n j lb)"
  unfolding keeps_def
proof (intro allI impI)
  fix d a d'
  show "rle n j lb d = Inr (a, d') \<Longrightarrow> sameFields d d'"
  proof (induction n j lb d rule: rle_induct)
    case (stop n j lb d)
    then show ?case by (simp add: rle_stop reflpD)
  next
    case (eof1 n j lb d e)
    then show ?case by (simp add: rle_eof1)
  next
    case (eof2 n j lb d c d1 e)
    then show ?case by (simp add: rle_eof2)
  next
    case (overrun n j lb d c d1 b d2)
    then show ?case by (simp add: rle_overrun)
  next
    case (run n j lb d c d1 b d2)
    let ?d3 = "d2\<lparr>tmpBuf := take j (tmpBuf d2) @ replicate (unat c - 128) b
                                           @ drop (j + (unat c - 128)) (tmpBuf d2)\<rparr>"
    from run have "sameFields ?d3 d'" by (simp add: rle_run)
    moreover have "sameFields d2 ?d3" by simp
    moreover have "sameFields d d1" using keepsD [OF same_readByte run(2)] .
    moreover have "sameFields d1 d2" using keepsD [OF same_readByte run(4)] .
    ultimately show ?case by (blast intro: sameFields_trans)
  next
    case (literr n j lb d c d1 e)
    then show ?case by (simp add: rle_literr)
  next
    case (lit n j lb d c d1 d2)
    from lit have "sameFields d2 d'" by (simp add: rle_lit)
    moreover have "sameFields d d1" using keepsD [OF same_readByte lit(2)] .
    moreover have "sameFields d1 d2" using keepsD [OF same_readAt lit(4)] .
    ultimately show ?case by (blast intro: sameFields_trans)
  qed
qed

lemma same_zlibRead [resp]: "keeps sameFields (zlibRead zl n lb)"
  by (auto simp: keeps_def zlibRead_def split: sum.splits)

lemma same_decompress [resp]: "keeps sameFields (decompress zl n lb)"
  unfolding decompress_def by (intro resp) simp_all

lemma same_storePix: "storePix px i v d = Inr (px', d') \<Longrightarrow> sameFields d d'"
  by (auto simp: storePix_def sameFields_def fields_def reflpD split: pixref.splits if_splits)

lemma same_unpackByte: "unpackByte j i b px d = Inr (px', d') \<Longrightarrow> sameFields d d'"
proof (induction j i b px d rule: unpackByte.induct)
  case (1 j i b px d)
  show ?case
  proof (cases "j < 8")
    case True
    with "1.prems" obtain px1 d1 where s: "storePix px (i * 8 + j) (drop_bit 7 b) d = Inr (px1, d1)"
      and r: "unpackByte (j + 1) i (push_bit 1 b) px1 d1 = Inr (px', d')"
      by (subst (asm) unpackByte.simps) (auto split: sum.splits)
    from "1.IH" [OF True s refl r] same_storePix [OF s] show ?thesis
      by (blast intro: sameFields_trans)
  next
    case False
    with "1.prems" show ?thesis by (subst (asm) unpackByte.simps) (simp add: reflpD)
  qed
qed

lemma same_unpackBits': "unpackBits i lb px d = Inr (px', d') \<Longrightarrow> sameFields d d'"
proof (induction i lb px d rule: unpackBits.induct)
  case (1 i lb px d)
  show ?case
  proof (cases "i < lb")
    case True
    with "1.prems" obtain px1 d1 where s: "unpackByte 0 i (tmpBuf d ! i) px d = Inr (px1, d1)"
      and r: "unpackBits (i + 1) lb px1 d1 = Inr (px', d')"
      by (subst (asm) unpackBits.simps) (auto split: sum.splits)
    from "1.IH" [OF True s refl r] same_unpackByte [OF s] show ?thesis
      by (blast intro: sameFields_trans)
  next
    case False
    with "1.prems" show ?thesis by (subst (asm) unpackBits.simps) (simp add: reflpD)
  qed
qed

lemma same_unpackBits [resp]: "keeps sameFields (unpackBits i lb px)"
  by (auto simp: keeps_def dest: same_unpackBits')

lemma same_scatter [resp]: "keeps sameFields (scatter ct lb ls)"
  unfolding scatter_def by (intro resp) simp_all

lemma same_countChannel [resp]: "keeps sameFields (countChannel ls)"
  unfolding countChannel_def by (intro resp) simp_all

lemma same_layerStep [resp]: "keeps sameFields (layerStep ls)"
  unfolding layerStep_def by (intro resp) simp_all

lemma same_channelStep [resp]: "keeps sameFields (channelStep zl bh ls)"
  unfolding channelStep_def by (intro resp) simp_all

lemma same_decodeLayers_step [resp]: "keeps sameFields (decodeLayers_step zl ls)"
  unfolding decodeLayers_step_def by (intro resp) simp_all

lemma keeps_mono: "keeps Q m \<Longrightarrow> (\<And>d d'. Q d d' \<Longrightarrow> Q' d d') \<Longrightarrow> keeps Q' m"
  by (auto simp: keeps_def)

lemma keeps_decodeLayers_loop:
  assumes "reflp Q" and "transp Q" and "\<And>ls. keeps Q (decodeLayers_step zl ls)"
  shows "keeps Q (decodeLayers_loop zl ls)"
  unfolding keeps_def
proof (intro allI impI)
  fix d a d'
  assume "decodeLayers_loop zl ls d = Inr (a, d')"
  moreover have "\<forall>ls. keeps Q (decodeLayers_step zl ls)" using assms(3) by simp
  ultimately show "Q d d'"
  proof (induction zl ls d rule: decodeLayers_loop.induct)
    case (1 zl ls d)
    from "1.prems"(1) obtain t d1 where s: "decodeLayers_step zl ls d = Inr (t, d1)"
      by (subst (asm) decodeLayers_loop.simps) (auto split: sum.splits)
    from "1.prems"(2) have "keeps Q (decodeLayers_step zl ls)" by simp
    from keepsD [OF this s] have s1: "Q d d1" .
    show ?case
    proof (cases t)
      case (Return r)
      with "1.prems"(1) s s1 show ?thesis by (subst (asm) decodeLayers_loop.simps) simp
    next
      case (Continue ls')
      with "1.prems"(1) s have "decodeLayers_loop zl ls' d1 = Inr (a, d')"
        by (subst (asm) decodeLayers_loop.simps) simp
      from "1.IH" [OF s refl Continue this "1.prems"(2)] s1 assms(2)
      show ?thesis by (blast dest: transpD)
    qed
  qed
qed

lemma keeps_decode:
  assumes "reflp Q" and "transp Q" and "keeps Q (decode_step zl)"
  shows "keeps Q (decode zl)"
  unfolding keeps_def
proof (intro allI impI)
  fix d a d'
  assume "decode zl d = Inr (a, d')"
  then show "Q d d'" using assms(3)
  proof (induction zl d rule: decode.induct)
    case (1 zl d)
    from "1.prems"(1) obtain t d1 where s: "decode_step zl d = Inr (t, d1)"
      by (subst (asm) decode.simps) (auto split: sum.splits)
    from keepsD [OF "1.prems"(2) s] have s1: "Q d d1" .
    show ?case
    proof (cases t)
      case (Return r)
      with "1.prems"(1) s s1 show ?thesis by (subst (asm) decode.simps) simp
    next
      case (Continue u)
      with "1.prems"(1) s have "decode zl d1 = Inr (a, d')"
        by (subst (asm) decode.simps) simp
      from "1.IH" [OF s refl Continue this "1.prems"(2)] s1 assms(2)
      show ?thesis by (blast dest: transpD)
    qed
  qed
qed

lemma keeps_chunks:
  assumes "reflp Q" and "transp Q" and "keeps Q readChunkHeader"
    and "\<And>ch. keeps Q (creatorField ch)" and "\<And>n. keeps Q (skip n)"
  shows "keeps Q (decodeCreatorBlock n)" and "keeps Q (decodeExtendedDataBlock n)"
proof -
  have "decodeCreatorBlock n d = Inr (a, d') \<Longrightarrow> Q d d'" for d a d'
  proof (induction n d rule: decodeCreatorBlock.induct)
    case (1 totalLen d)
    show ?case
    proof (cases "totalLen > 0")
      case False
      with "1.prems" assms(1) show ?thesis
        by (subst (asm) decodeCreatorBlock.simps) (simp add: reflpD)
    next
      case True
      with "1.prems" obtain ch d1 u d2 where h: "readChunkHeader d = Inr (ch, d1)"
        and k: "creatorField ch d1 = Inr (u, d2)"
        and r: "decodeCreatorBlock (totalLen - (10 + uint (ch_dataLen ch))) d2
                  = Inr (a, d')"
        by (subst (asm) decodeCreatorBlock.simps) (auto split: sum.splits)
      from keepsD [OF assms(3) h] keepsD [OF assms(4) k]
        "1.IH" [OF True h refl k refl r] assms(2)
      show ?thesis by (blast dest: transpD)
    qed
  qed
  then show "keeps Q (decodeCreatorBlock n)" by (simp add: keeps_def)
  have "decodeExtendedDataBlock n d = Inr (a, d') \<Longrightarrow> Q d d'" for d a d'
  proof (induction n d rule: decodeExtendedDataBlock.induct)
    case (1 totalLen d)
    show ?case
    proof (cases "totalLen > 0")
      case False
      with "1.prems" assms(1) show ?thesis
        by (subst (asm) decodeExtendedDataBlock.simps) (simp add: reflpD)
    next
      case True
      with "1.prems" obtain ch d1 u d2 where h: "readChunkHeader d = Inr (ch, d1)"
        and k: "skip (uint (ch_dataLen ch)) d1 = Inr (u, d2)"
        and r: "decodeExtendedDataBlock (totalLen - (10 + uint (ch_dataLen ch))) d2
                  = Inr (a, d')"
        by (subst (asm) decodeExtendedDataBlock.simps) (auto split: sum.splits)
      from keepsD [OF assms(3) h] keepsD [OF assms(5) k]
        "1.IH" [OF True h refl k refl r] assms(2)
      show ?thesis by (blast dest: transpD)
    qed
  qed
  then show "keeps Q (decodeExtendedDataBlock n)" by (simp add: keeps_def)
qed

lemma same_decodeLayers [resp]: "keeps sameFields (decodeLayers zl)"
  unfolding decodeLayers_def
  by (rule keeps_decodeLayers_loop) (simp_all add: same_decodeLayers_step)

text \<open>The fields that \<open>readHeader\<close> sets stay as they are in \<open>decode\<close>.\<close>

definition sameAttributes :: "decoder \<Rightarrow> decoder \<Rightarrow> bool" where
  "sameAttributes d d' \<longleftrightarrow>
     fields (d'\<lparr>creator_d := zeroCreator, palette := None\<rparr>)
       = fields (d\<lparr>creator_d := zeroCreator, palette := None\<rparr>)"

lemma reflp_sameAttributes [simp]: "reflp sameAttributes"
  by (simp add: reflp_def sameAttributes_def)

lemma transp_sameAttributes [simp]: "transp sameAttributes"
  by (simp add: transp_def sameAttributes_def)

lemma fields_update:
  "fields (d\<lparr>creator_d := c, palette := p\<rparr>) = (fields d)\<lparr>creator_d := c, palette := p\<rparr>"
  by (simp add: fields_def)

lemma sameFields_sameAttributes: "sameFields d d' \<Longrightarrow> sameAttributes d d'"
  by (simp add: sameFields_def sameAttributes_def fields_update)

lemmas attr = keeps_mono [OF _ sameFields_sameAttributes]

lemma attr_creatorField: "keeps sameAttributes (creatorField ch)"
  unfolding creatorField_def setCreator_def
  by (intro resp keeps_modify attr [OF same_readString] attr [OF same_readUint32]
        attr [OF same_skip]; simp add: sameAttributes_def fields_def)

lemma attr_decodeColorBlock: "keeps sameAttributes (decodeColorBlock n)"
  unfolding decodeColorBlock_def
  by (intro resp keeps_modify attr [OF same_read] attr [OF same_readUint32]
        attr [OF same_makeTmpBuf]; simp add: sameAttributes_def fields_def)

lemma attr_readChunkHeader: "keeps sameAttributes readChunkHeader"
  unfolding readChunkHeader_def decodeChunkHeader_def
  by (intro resp attr [OF same_read]; simp)

lemma attr_decode_step: "keeps sameAttributes (decode_step zl)"
  unfolding decode_step_def
  by (intro resp attr [OF same_readBlockHeader] attr [OF same_decodeLayers] attr [OF same_skip]
        keeps_chunks attr_creatorField attr_decodeColorBlock attr_readChunkHeader; simp)

lemma attr_decode: "keeps sameAttributes (decode zl)"
  by (rule keeps_decode) (simp_all add: attr_decode_step)

lemma sameAttributes_config:
  "sameAttributes d d' \<Longrightarrow>
     colorModel_d d' = colorModel_d d \<and> width d' = width d \<and> height d' = height d"
proof -
  assume "sameAttributes d d'"
  then have e: "fields (d'\<lparr>creator_d := zeroCreator, palette := None\<rparr>)
       = fields (d\<lparr>creator_d := zeroCreator, palette := None\<rparr>)"
    by (simp add: sameAttributes_def)
  have "colorModel_d d' = colorModel_d (fields (d'\<lparr>creator_d := zeroCreator, palette := None\<rparr>))"
    "width d' = width (fields (d'\<lparr>creator_d := zeroCreator, palette := None\<rparr>))"
    "height d' = height (fields (d'\<lparr>creator_d := zeroCreator, palette := None\<rparr>))"
    by (simp_all add: fields_def)
  then show ?thesis unfolding e by (simp add: fields_def)
qed

lemma readBlockHeader_effect:
  assumes "readBlockHeader d = Inr (bh, d')"
  shows "(if versionMajor d > 3 then 10 else 14) \<le> length (inp d)
         \<and> inp d' = drop (if versionMajor d > 3 then 10 else 14) (inp d)
         \<and> bh_id bh = decodeUint16 (subslice (inp d) 4 6)
         \<and> dataLen bh = decodeUint32 (subslice (inp d) (if versionMajor d > 3 then 6 else 10)
                                         (if versionMajor d > 3 then 10 else 14))
         \<and> subslice (inp d) 0 4 = blockMagic
         \<and> sameFields d d'"
proof -
  from keepsD [OF same_readBlockHeader assms] have "sameFields d d'" .
  moreover from assms have "(if versionMajor d > 3 then 10 else 14) \<le> length (inp d)
         \<and> inp d' = drop (if versionMajor d > 3 then 10 else 14) (inp d)
         \<and> bh_id bh = decodeUint16 (subslice (inp d) 4 6)
         \<and> dataLen bh = decodeUint32 (subslice (inp d) (if versionMajor d > 3 then 6 else 10)
                                         (if versionMajor d > 3 then 10 else 14))
         \<and> subslice (inp d) 0 4 = blockMagic"
    by (auto simp: readBlockHeader_def andThen_Inr Let_def subslice_take_append
             split: if_splits dest!: read_effect)
  ultimately show ?thesis by simp
qed

lemma length_tmpBuf_zeroDecoder [simp]: "length (tmpBuf (zeroDecoder r)) = 64"
  by (simp add: zeroDecoder_def)

lemma inp_zeroDecoder [simp]: "inp (zeroDecoder r) = r"
  by (simp add: zeroDecoder_def)

text \<open>The length of a block header, and where its \<open>dataLen\<close> lies in the file header.\<close>

definition headerLen :: "16 word \<Rightarrow> nat" where
  "headerLen v = (if v > 3 then 10 else 14)"

lemma newDecoder_effect:
  assumes "newDecoder r = Inr d"
  shows "versionMajor d = decodeUint16 (subslice r 32 34) \<and> 3 \<le> versionMajor d
         \<and> (\<exists>L. L = unat (decodeUint32 (subslice r (32 + headerLen (versionMajor d))
                                                    (36 + headerLen (versionMajor d))))
              \<and> 38 \<le> L \<and> L \<le> 64
              \<and> 36 + headerLen (versionMajor d) + L \<le> length r
              \<and> inp d = drop (36 + headerLen (versionMajor d) + L) r)"
proof -
  from assms obtain u where rh: "readHeader (zeroDecoder r) = Inr (u, d)"
    by (auto simp: newDecoder_def split: sum.splits)
  let ?z = "zeroDecoder r"
  from rh obtain u1 d1 where r1: "read 36 ?z = Inr (u1, d1)"
    and rest1: "(andThen (gets tmpBuf) (\<lambda>tb.
       if subslice tb 0 32 \<noteq> fileMagic then d_error (FormatError ''not a PSP file'')
       else
     andThen (modify (\<lambda>d. d\<lparr>versionMajor := decodeUint16 (subslice tb 32 34),
                               versionMinor := decodeUint16 (subslice tb 34 36)\<rparr>)) (\<lambda>_.
       if decodeUint16 (subslice tb 32 34) < 3
       then d_error (UnsupportedError ''only major versions >= 3 are supported'' [])
       else
     andThen readBlockHeader (\<lambda>bh.
       if bh_id bh \<noteq> imageBlock
       then d_error (FormatError ''missing general image attributes block'')
       else if dataLen bh < 38 \<or> dataLen bh > 64
       then d_error (FormatError ''invalid length for general image attributes block'')
       else
     andThen (read (unat (dataLen bh))) (\<lambda>_.
     andThen (gets (\<lambda>d. if versionMajor d \<ge> 4 then drop 4 (tmpBuf d) else tmpBuf d)) (\<lambda>buf.
     andThen (modify (setAttributes buf)) (\<lambda>_.
     andThen (gets comp_d) (\<lambda>c.
       if c \<noteq> compressionNone \<and> c \<noteq> compressionRLE \<and> c \<noteq> compressionLZ77
       then d_error (UnsupportedError ''unsupported compression (%04x)'' [unat c])
       else
     andThen (gets (\<lambda>d. colorModelFor (grayscale d) (bitDepth d))) (\<lambda>cm.
       case cm of
         Inl e \<Rightarrow> d_error e
       | Inr m \<Rightarrow> modify (\<lambda>d. d\<lparr>colorModel_d := m\<rparr>)))))))))) d1 = Inr (u, d)"
    unfolding readHeader_def by (auto simp: andThen_Inr)
  from read_effect [OF r1] have i1: "inp d1 = drop 36 r" and l1: "36 \<le> length r"
    and t1: "tmpBuf d1 = take 36 r @ drop 36 (tmpBuf ?z)" by auto
  let ?v = "decodeUint16 (subslice r 32 34)"
  let ?d2 = "d1\<lparr>versionMajor := ?v, versionMinor := decodeUint16 (subslice r 34 36)\<rparr>"
  have sl: "subslice (tmpBuf d1) 32 34 = subslice r 32 34" "subslice (tmpBuf d1) 34 36 = subslice r 34 36"
    using l1 by (simp_all add: t1 subslice_take_append)
  from rest1 obtain bh d3 u4 d4 where v3: "\<not> ?v < 3"
    and h: "readBlockHeader ?d2 = Inr (bh, d3)"
    and L: "\<not> (dataLen bh < 38 \<or> dataLen bh > 64)"
    and r4: "read (unat (dataLen bh)) d3 = Inr (u4, d4)"
    and rest4: "(andThen (gets (\<lambda>d. if versionMajor d \<ge> 4 then drop 4 (tmpBuf d) else tmpBuf d)) (\<lambda>buf.
     andThen (modify (setAttributes buf)) (\<lambda>_.
     andThen (gets comp_d) (\<lambda>c.
       if c \<noteq> compressionNone \<and> c \<noteq> compressionRLE \<and> c \<noteq> compressionLZ77
       then d_error (UnsupportedError ''unsupported compression (%04x)'' [unat c])
       else
     andThen (gets (\<lambda>d. colorModelFor (grayscale d) (bitDepth d))) (\<lambda>cm.
       case cm of
         Inl e \<Rightarrow> d_error e
       | Inr m \<Rightarrow> modify (\<lambda>d. d\<lparr>colorModel_d := m\<rparr>)))))) d4 = Inr (u, d)"
    by (auto simp: andThen_Inr sl split: if_splits)
  have v2: "versionMajor ?d2 = ?v" and i2: "inp ?d2 = drop 36 r" using i1 by simp_all
  from readBlockHeader_effect [OF h]
  have hl: "headerLen ?v \<le> length (drop 36 r)" and i3: "inp d3 = drop (headerLen ?v) (drop 36 r)"
    and dl: "dataLen bh = decodeUint32 (subslice (drop 36 r) (headerLen ?v - 4) (headerLen ?v))"
    and s3: "sameFields ?d2 d3"
    unfolding v2 i2 headerLen_def by (auto split: if_splits)
  from read_effect [OF r4] have i4: "inp d4 = drop (unat (dataLen bh)) (inp d3)"
    and l4: "unat (dataLen bh) \<le> length (inp d3)" and s4: "sameFields d3 d4"
    by (auto simp: sameFields_def fields_def)
  have "keeps sameFields (\<lambda>d. Inr ((), d))" by (simp add: keeps_def reflpD)
  from rest4 have i5: "inp d = inp d4" and v5: "versionMajor d = versionMajor d4"
    by (auto simp: andThen_Inr setAttributes_def split: if_splits sum.splits)
  have "versionMajor d3 = versionMajor ?d2" using s3
    by (auto simp: sameFields_def fields_def dest: arg_cong [where f = versionMajor])
  moreover have "versionMajor d4 = versionMajor d3" using s4
    by (auto simp: sameFields_def fields_def dest: arg_cong [where f = versionMajor])
  ultimately have vd: "versionMajor d = ?v" using v5 v2 by simp
  have "subslice (drop 36 r) (headerLen ?v - 4) (headerLen ?v)
          = subslice r (32 + headerLen ?v) (36 + headerLen ?v)"
    by (simp add: subslice_def headerLen_def add.commute)
  with dl have dl': "unat (dataLen bh) = unat (decodeUint32 (subslice r (32 + headerLen ?v) (36 + headerLen ?v)))"
    by simp
  from L have "38 \<le> unat (dataLen bh)" "unat (dataLen bh) \<le> 64"
    by (simp_all add: not_less word_le_nat_alt)
  moreover have "36 + headerLen ?v + unat (dataLen bh) \<le> length r"
    using l4 i3 hl l1 by simp
  moreover have "inp d = drop (36 + headerLen ?v + unat (dataLen bh)) r"
    using i5 i4 i3 by (simp add: add.commute add.left_commute)
  moreover have "3 \<le> ?v" using v3 by (simp add: not_less)
  ultimately show ?thesis unfolding vd dl' [symmetric] by simp
qed

lemma skip_effect:
  "skip n d = Inr (u, d') \<Longrightarrow> 0 \<le> n \<and> nat n \<le> length (inp d) \<and> inp d' = drop (nat n) (inp d)"
  by (auto simp: skip_def split: if_splits)

lemma skip_uint_effect:
  "skip (uint w) d = Inr (u, d') \<Longrightarrow> unat w \<le> length (inp d) \<and> inp d' = drop (unat w) (inp d)"
  by (auto dest!: skip_effect)

lemma andThen_after: "m d = Inr (a, d1) \<Longrightarrow> andThen m f d = f a d1"
  by (simp add: andThen_def)


lemma readByte_effect:
  "readByte d = Inr (c, d1) \<Longrightarrow>
     inp d = c # inp d1 \<and> tmpBuf d1 = tmpBuf d \<and> d1 = d\<lparr>inp := inp d1, ahead := (if ahead d = 0 then fill (length (inp d)) else ahead d) - 1\<rparr>"
  by (auto simp: readByte_def split: list.splits)

lemma readAt_effect:
  "readAt off n d = Inr (u, d') \<Longrightarrow>
     n \<le> length (inp d) \<and> off + n \<le> length (tmpBuf d)
     \<and> d' = d\<lparr>inp := drop n (inp d), ahead := readFullAhead n (ahead d) (length (inp d)),
              tmpBuf := take off (tmpBuf d) @ take n (inp d) @ drop (off + n) (tmpBuf d)\<rparr>"
  by (auto simp: readAt_def split: if_splits)

section \<open>Definitions used to state the properties\<close>

text \<open>A decompressor that always fails, for the runs that do not use it.\<close>

definition noZlib :: zlib where
  "noZlib a xs n = Inl (LibraryError 0)"

text \<open>What an operation returns, and the input it leaves, as values of their own.\<close>

definition result_of :: "'a dec \<Rightarrow> decoder \<Rightarrow> abort + 'a" where
  "result_of m d = (case m d of Inl e \<Rightarrow> Inl e | Inr (a, d') \<Rightarrow> Inr a)"

definition rest_of :: "'a dec \<Rightarrow> decoder \<Rightarrow> byte list option" where
  "rest_of m d = (case m d of Inl e \<Rightarrow> None | Inr (a, d') \<Rightarrow> Some (inp d'))"

text \<open>A decoder of a file of major version \<open>v\<close> in front of the input \<open>xs\<close>.\<close>

definition decoderAt :: "16 word \<Rightarrow> byte list \<Rightarrow> decoder" where
  "decoderAt v xs = (zeroDecoder xs)\<lparr>versionMajor := v\<rparr>"

text \<open>\<open>Decode\<close> without \<open>catchErrors\<close>: the header, then the blocks.\<close>

definition decodeRun :: "zlib \<Rightarrow> byte list \<Rightarrow> abort + (image option \<times> decoder)" where
  "decodeRun zl r = (case newDecoder r of Inl a \<Rightarrow> Inl a | Inr d \<Rightarrow> decode zl d)"

text \<open>
  A version 5 file: a 1 by 1 image of depth 24, not compressed, one layer with three
  channels (red 17, green 34, blue 51).
\<close>

definition rgbFile :: "byte list" where
  "rgbFile = [80, 97, 105, 110, 116, 32, 83, 104, 111, 112, 32, 80, 114, 111, 32, 73, 109, 97, 103, 101, 32, 70, 105, 108, 101, 10, 26, 0, 0, 0, 0, 0, 5, 0, 0, 0, 126, 66, 75, 0, 0, 0, 42, 0, 0, 0, 42, 0, 0, 0, 1, 0, 0, 0, 1, 0, 0, 0, 0, 0, 0, 0, 0, 0, 0, 0, 0, 0, 0, 24, 0, 1, 0, 0, 0, 0, 0, 0, 0, 0, 0, 0, 0, 0, 0, 0, 1, 0, 126, 66, 75, 0, 3, 0, 0, 0, 0, 0, 126, 66, 75, 0, 4, 0, 129, 0, 0, 0, 0, 0, 0, 0, 0, 0, 0, 0, 0, 0, 0, 0, 0, 0, 0, 1, 0, 0, 0, 1, 0, 0, 0, 0, 0, 0, 0, 0, 0, 0, 0, 1, 0, 0, 0, 1, 0, 0, 0, 255, 0, 1, 0, 0, 0, 0, 0, 0, 0, 0, 0, 0, 0, 0, 0, 0, 0, 0, 0, 0, 0, 0, 0, 0, 0, 0, 0, 0, 0, 0, 0, 0, 0, 0, 0, 0, 0, 0, 0, 0, 0, 0, 0, 0, 0, 0, 0, 0, 0, 0, 0, 0, 0, 0, 0, 0, 0, 0, 0, 0, 0, 0, 0, 0, 0, 0, 0, 0, 0, 0, 0, 0, 0, 0, 0, 0, 0, 0, 0, 0, 0, 0, 0, 0, 0, 1, 0, 3, 0, 126, 66, 75, 0, 5, 0, 17, 0, 0, 0, 16, 0, 0, 0, 1, 0, 0, 0, 1, 0, 0, 0, 0, 0, 1, 0, 17, 126, 66, 75, 0, 5, 0, 17, 0, 0, 0, 16, 0, 0, 0, 1, 0, 0, 0, 1, 0, 0, 0, 0, 0, 2, 0, 34, 126, 66, 75, 0, 5, 0, 17, 0, 0, 0, 16, 0, 0, 0, 1, 0, 0, 0, 1, 0, 0, 0, 0, 0, 3, 0, 51]"

text \<open>A block of identifier 7 with a body of three bytes, and one more byte.\<close>

definition skippedBlock :: "byte list" where
  "skippedBlock = [126, 66, 75, 0, 7, 0, 3, 0, 0, 0, 1, 2, 3, 9]"

text \<open>
  A block of identifier 33 with a body of two bytes, the count 8, four more bytes, and two
  bytes of the next block.
\<close>

definition block33 :: "byte list" where
  "block33 = [126, 66, 75, 0, 33, 0, 2, 0, 0, 0, 1, 2, 8, 0, 0, 0, 3, 4, 5, 6, 9, 9]"

text \<open>
  The run-length scheme in the words of the specification: a control byte \<open>c\<close> above 128
  stands for \<open>c - 128\<close> copies of the byte behind it, any other control byte for the
  \<open>c\<close> bytes behind it. \<open>rleExpand\<close> expands a sequence of such items and is \<open>None\<close>
  when the last item is cut short.
\<close>

function rleExpand :: "byte list \<Rightarrow> byte list option" where
  "rleExpand [] = Some []"
| "rleExpand (c # xs) =
     (if unat c > 128 then
        (case xs of
           [] \<Rightarrow> None
         | b # ys \<Rightarrow> map_option (\<lambda>out. replicate (unat c - 128) b @ out) (rleExpand ys))
      else if length xs < unat c then None
      else map_option (\<lambda>out. take (unat c) xs @ out) (rleExpand (drop (unat c) xs)))"
  by pat_completeness auto
termination
  by (relation "measure length") auto

text \<open>A decoder of a run-length compressed file of version 5 in front of the input \<open>xs\<close>.\<close>

definition rleDecoder :: "byte list \<Rightarrow> decoder" where
  "rleDecoder xs = (decoderAt 5 xs)\<lparr>comp_d := compressionRLE\<rparr>"

text \<open>
  A version 5 file, run-length compressed: a 1 by 1 image of depth 24 whose first channel
  holds a run of two bytes, one more than the layer has room for.
\<close>

definition rleOverrunFile :: "byte list" where
  "rleOverrunFile = [80, 97, 105, 110, 116, 32, 83, 104, 111, 112, 32, 80, 114, 111, 32, 73, 109, 97, 103, 101, 32, 70, 105, 108, 101, 10, 26, 0, 0, 0, 0, 0, 5, 0, 0, 0, 126, 66, 75, 0, 0, 0, 42, 0, 0, 0, 42, 0, 0, 0, 1, 0, 0, 0, 1, 0, 0, 0, 0, 0, 0, 0, 0, 0, 0, 0, 0, 1, 0, 24, 0, 1, 0, 0, 0, 0, 0, 0, 0, 0, 0, 0, 0, 0, 0, 0, 1, 0, 126, 66, 75, 0, 3, 0, 0, 0, 0, 0, 126, 66, 75, 0, 4, 0, 129, 0, 0, 0, 0, 0, 0, 0, 0, 0, 0, 0, 0, 0, 0, 0, 0, 0, 0, 1, 0, 0, 0, 1, 0, 0, 0, 0, 0, 0, 0, 0, 0, 0, 0, 1, 0, 0, 0, 1, 0, 0, 0, 255, 0, 1, 0, 0, 0, 0, 0, 0, 0, 0, 0, 0, 0, 0, 0, 0, 0, 0, 0, 0, 0, 0, 0, 0, 0, 0, 0, 0, 0, 0, 0, 0, 0, 0, 0, 0, 0, 0, 0, 0, 0, 0, 0, 0, 0, 0, 0, 0, 0, 0, 0, 0, 0, 0, 0, 0, 0, 0, 0, 0, 0, 0, 0, 0, 0, 0, 0, 0, 0, 0, 0, 0, 0, 0, 0, 0, 0, 0, 0, 0, 0, 0, 0, 0, 0, 1, 0, 3, 0, 126, 66, 75, 0, 5, 0, 18, 0, 0, 0, 16, 0, 0, 0, 2, 0, 0, 0, 1, 0, 0, 0, 0, 0, 1, 0, 130, 7]"

text \<open>
  The same image in the layout of version 3 and of version 5: 1 by 1, depth 24, not
  compressed, one layer with four channels, a transparency mask of eight bytes in front of
  red, green and blue.
\<close>

definition maskFile3 :: "byte list" where
  "maskFile3 = [80, 97, 105, 110, 116, 32, 83, 104, 111, 112, 32, 80, 114, 111, 32, 73, 109, 97, 103, 101, 32, 70, 105, 108, 101, 10, 26, 0, 0, 0, 0, 0, 3, 0, 0, 0, 126, 66, 75, 0, 0, 0, 0, 0, 0, 0, 38, 0, 0, 0, 1, 0, 0, 0, 1, 0, 0, 0, 0, 0, 0, 0, 0, 0, 0, 0, 0, 0, 0, 24, 0, 1, 0, 0, 0, 0, 0, 0, 0, 0, 0, 0, 0, 0, 0, 0, 1, 0, 126, 66, 75, 0, 3, 0, 0, 0, 0, 0, 0, 0, 0, 0, 126, 66, 75, 0, 4, 0, 0, 0, 0, 0, 119, 1, 0, 0, 76, 0, 0, 0, 0, 0, 0, 0, 0, 0, 0, 0, 0, 0, 0, 0, 0, 0, 0, 0, 0, 0, 0, 0, 0, 0, 0, 0, 0, 0, 0, 0, 0, 0, 0, 0, 0, 0, 0, 0, 0, 0, 0, 0, 0, 0, 0, 0, 0, 0, 0, 0, 0, 0, 0, 0, 0, 0, 0, 0, 0, 0, 0, 0, 0, 0, 0, 0, 0, 0, 0, 0, 0, 0, 0, 0, 0, 0, 0, 0, 0, 0, 0, 0, 0, 0, 0, 0, 0, 0, 0, 0, 0, 0, 0, 0, 0, 0, 0, 0, 0, 0, 0, 0, 0, 0, 0, 0, 0, 0, 0, 0, 0, 0, 0, 0, 0, 0, 0, 0, 0, 0, 0, 0, 0, 0, 0, 0, 0, 0, 0, 0, 0, 0, 0, 0, 0, 0, 0, 0, 0, 0, 0, 0, 0, 0, 0, 0, 0, 0, 0, 0, 0, 0, 0, 0, 0, 0, 0, 0, 0, 0, 0, 0, 0, 0, 0, 0, 0, 0, 0, 0, 0, 0, 0, 0, 0, 0, 0, 0, 0, 0, 0, 0, 0, 0, 0, 0, 0, 0, 0, 0, 0, 0, 0, 0, 0, 0, 0, 0, 0, 0, 0, 0, 0, 0, 0, 0, 0, 0, 0, 0, 0, 0, 0, 0, 0, 0, 0, 0, 0, 0, 0, 0, 0, 0, 0, 0, 0, 0, 0, 0, 0, 0, 0, 0, 0, 0, 0, 0, 0, 0, 0, 0, 0, 0, 0, 0, 0, 0, 0, 0, 0, 0, 0, 0, 0, 0, 0, 0, 0, 0, 0, 0, 0, 1, 0, 0, 0, 1, 0, 0, 0, 0, 0, 0, 0, 0, 0, 0, 0, 1, 0, 0, 0, 1, 0, 0, 0, 255, 0, 1, 0, 0, 0, 0, 0, 0, 0, 0, 0, 0, 0, 0, 0, 0, 0, 0, 0, 0, 0, 0, 0, 0, 0, 0, 0, 0, 0, 0, 0, 0, 0, 0, 0, 0, 0, 0, 0, 0, 0, 0, 0, 0, 0, 0, 0, 0, 0, 0, 0, 0, 0, 0, 0, 0, 0, 0, 0, 0, 0, 0, 0, 0, 0, 0, 0, 0, 0, 0, 0, 0, 0, 0, 0, 0, 0, 0, 0, 0, 0, 1, 0, 4, 0, 126, 66, 75, 0, 5, 0, 0, 0, 0, 0, 20, 0, 0, 0, 8, 0, 0, 0, 1, 0, 0, 0, 1, 0, 0, 0, 1, 2, 3, 4, 5, 6, 7, 8, 126, 66, 75, 0, 5, 0, 0, 0, 0, 0, 13, 0, 0, 0, 1, 0, 0, 0, 1, 0, 0, 0, 0, 0, 1, 0, 17, 126, 66, 75, 0, 5, 0, 0, 0, 0, 0, 13, 0, 0, 0, 1, 0, 0, 0, 1, 0, 0, 0, 0, 0, 2, 0, 34, 126, 66, 75, 0, 5, 0, 0, 0, 0, 0, 13, 0, 0, 0, 1, 0, 0, 0, 1, 0, 0, 0, 0, 0, 3, 0, 51]"

definition maskFile5 :: "byte list" where
  "maskFile5 = [80, 97, 105, 110, 116, 32, 83, 104, 111, 112, 32, 80, 114, 111, 32, 73, 109, 97, 103, 101, 32, 70, 105, 108, 101, 10, 26, 0, 0, 0, 0, 0, 5, 0, 0, 0, 126, 66, 75, 0, 0, 0, 42, 0, 0, 0, 42, 0, 0, 0, 1, 0, 0, 0, 1, 0, 0, 0, 0, 0, 0, 0, 0, 0, 0, 0, 0, 0, 0, 24, 0, 1, 0, 0, 0, 0, 0, 0, 0, 0, 0, 0, 0, 0, 0, 0, 1, 0, 126, 66, 75, 0, 3, 0, 0, 0, 0, 0, 126, 66, 75, 0, 4, 0, 129, 0, 0, 0, 0, 0, 0, 0, 0, 0, 0, 0, 0, 0, 0, 0, 0, 0, 0, 1, 0, 0, 0, 1, 0, 0, 0, 0, 0, 0, 0, 0, 0, 0, 0, 1, 0, 0, 0, 1, 0, 0, 0, 255, 0, 1, 0, 0, 0, 0, 0, 0, 0, 0, 0, 0, 0, 0, 0, 0, 0, 0, 0, 0, 0, 0, 0, 0, 0, 0, 0, 0, 0, 0, 0, 0, 0, 0, 0, 0, 0, 0, 0, 0, 0, 0, 0, 0, 0, 0, 0, 0, 0, 0, 0, 0, 0, 0, 0, 0, 0, 0, 0, 0, 0, 0, 0, 0, 0, 0, 0, 0, 0, 0, 0, 0, 0, 0, 0, 0, 0, 0, 0, 0, 0, 0, 0, 0, 0, 1, 0, 4, 0, 126, 66, 75, 0, 5, 0, 24, 0, 0, 0, 16, 0, 0, 0, 8, 0, 0, 0, 1, 0, 0, 0, 1, 0, 0, 0, 1, 2, 3, 4, 5, 6, 7, 8, 126, 66, 75, 0, 5, 0, 17, 0, 0, 0, 16, 0, 0, 0, 1, 0, 0, 0, 1, 0, 0, 0, 0, 0, 1, 0, 17, 126, 66, 75, 0, 5, 0, 17, 0, 0, 0, 16, 0, 0, 0, 1, 0, 0, 0, 1, 0, 0, 0, 0, 0, 2, 0, 34, 126, 66, 75, 0, 5, 0, 17, 0, 0, 0, 16, 0, 0, 0, 1, 0, 0, 0, 1, 0, 0, 0, 0, 0, 3, 0, 51]"

text \<open>
  A channel sub-block of version 3 that holds a mask: \<open>dataLen\<close> is 20, the four fields
  and eight bytes of data; behind it the first bytes of the next header.
\<close>

definition maskBlock3 :: "byte list" where
  "maskBlock3 = [126, 66, 75, 0, 5, 0, 0, 0, 0, 0, 20, 0, 0, 0, 8, 0, 0, 0, 8, 0, 0, 0, 1, 0, 0, 0, 1, 2, 3, 4, 5, 6, 7, 8, 126, 66, 75, 0]"

text \<open>
  A version 5 file with a palette of two colours: a 2 by 1 image of depth 8, not
  compressed, one layer with two channels, the image (indices 1 and 1) and a mask. In
  \<open>palFileA\<close> the image channel comes first, in \<open>palFileB\<close> the mask.
\<close>

definition palFileA :: "byte list" where
  "palFileA = [80, 97, 105, 110, 116, 32, 83, 104, 111, 112, 32, 80, 114, 111, 32, 73, 109, 97, 103, 101, 32, 70, 105, 108, 101, 10, 26, 0, 0, 0, 0, 0, 5, 0, 0, 0, 126, 66, 75, 0, 0, 0, 42, 0, 0, 0, 42, 0, 0, 0, 2, 0, 0, 0, 1, 0, 0, 0, 0, 0, 0, 0, 0, 0, 0, 0, 0, 0, 0, 8, 0, 1, 0, 0, 0, 0, 0, 0, 0, 0, 0, 0, 0, 0, 0, 0, 1, 0, 126, 66, 75, 0, 2, 0, 16, 0, 0, 0, 8, 0, 0, 0, 2, 0, 0, 0, 0, 0, 0, 0, 255, 255, 255, 0, 126, 66, 75, 0, 3, 0, 0, 0, 0, 0, 126, 66, 75, 0, 4, 0, 129, 0, 0, 0, 0, 0, 0, 0, 0, 0, 0, 0, 0, 0, 0, 0, 0, 0, 0, 2, 0, 0, 0, 1, 0, 0, 0, 0, 0, 0, 0, 0, 0, 0, 0, 2, 0, 0, 0, 1, 0, 0, 0, 255, 0, 1, 0, 0, 0, 0, 0, 0, 0, 0, 0, 0, 0, 0, 0, 0, 0, 0, 0, 0, 0, 0, 0, 0, 0, 0, 0, 0, 0, 0, 0, 0, 0, 0, 0, 0, 0, 0, 0, 0, 0, 0, 0, 0, 0, 0, 0, 0, 0, 0, 0, 0, 0, 0, 0, 0, 0, 0, 0, 0, 0, 0, 0, 0, 0, 0, 0, 0, 0, 0, 0, 0, 0, 0, 0, 0, 0, 0, 0, 0, 0, 0, 0, 0, 0, 1, 0, 2, 0, 126, 66, 75, 0, 5, 0, 18, 0, 0, 0, 16, 0, 0, 0, 2, 0, 0, 0, 2, 0, 0, 0, 0, 0, 0, 0, 1, 1, 126, 66, 75, 0, 5, 0, 24, 0, 0, 0, 16, 0, 0, 0, 8, 0, 0, 0, 8, 0, 0, 0, 1, 0, 0, 0, 1, 2, 3, 4, 5, 6, 7, 8]"

definition palFileB :: "byte list" where
  "palFileB = [80, 97, 105, 110, 116, 32, 83, 104, 111, 112, 32, 80, 114, 111, 32, 73, 109, 97, 103, 101, 32, 70, 105, 108, 101, 10, 26, 0, 0, 0, 0, 0, 5, 0, 0, 0, 126, 66, 75, 0, 0, 0, 42, 0, 0, 0, 42, 0, 0, 0, 2, 0, 0, 0, 1, 0, 0, 0, 0, 0, 0, 0, 0, 0, 0, 0, 0, 0, 0, 8, 0, 1, 0, 0, 0, 0, 0, 0, 0, 0, 0, 0, 0, 0, 0, 0, 1, 0, 126, 66, 75, 0, 2, 0, 16, 0, 0, 0, 8, 0, 0, 0, 2, 0, 0, 0, 0, 0, 0, 0, 255, 255, 255, 0, 126, 66, 75, 0, 3, 0, 0, 0, 0, 0, 126, 66, 75, 0, 4, 0, 129, 0, 0, 0, 0, 0, 0, 0, 0, 0, 0, 0, 0, 0, 0, 0, 0, 0, 0, 2, 0, 0, 0, 1, 0, 0, 0, 0, 0, 0, 0, 0, 0, 0, 0, 2, 0, 0, 0, 1, 0, 0, 0, 255, 0, 1, 0, 0, 0, 0, 0, 0, 0, 0, 0, 0, 0, 0, 0, 0, 0, 0, 0, 0, 0, 0, 0, 0, 0, 0, 0, 0, 0, 0, 0, 0, 0, 0, 0, 0, 0, 0, 0, 0, 0, 0, 0, 0, 0, 0, 0, 0, 0, 0, 0, 0, 0, 0, 0, 0, 0, 0, 0, 0, 0, 0, 0, 0, 0, 0, 0, 0, 0, 0, 0, 0, 0, 0, 0, 0, 0, 0, 0, 0, 0, 0, 0, 0, 0, 1, 0, 2, 0, 126, 66, 75, 0, 5, 0, 24, 0, 0, 0, 16, 0, 0, 0, 8, 0, 0, 0, 8, 0, 0, 0, 1, 0, 0, 0, 1, 2, 3, 4, 5, 6, 7, 8, 126, 66, 75, 0, 5, 0, 18, 0, 0, 0, 16, 0, 0, 0, 2, 0, 0, 0, 2, 0, 0, 0, 0, 0, 0, 0, 1, 1]"

text \<open>
  Where a run of \<open>Decode\<close> stands when it calls the run-length loop. \<open>blocksAfter\<close>
  is the decoder after \<open>k\<close> turns of the loop of \<open>decode\<close> that went on to a next
  block, \<open>layersAfter\<close> the state of \<open>decodeLayers\<close> after \<open>m\<close> such turns of its
  loop. \<open>rleCall zl r k m\<close> holds the arguments \<open>compressedLayerLen\<close>, \<open>len(buf)\<close> and
  the decoder of the run-length loop, when block \<open>k\<close> of the file \<open>r\<close> is the layer bank
  and its sub-block \<open>m\<close> a channel of the image bitmap in a run-length compressed file;
  \<open>rleAborts\<close> says that this loop stops with the abort \<open>a\<close>.
\<close>

fun blocksAfter :: "zlib \<Rightarrow> nat \<Rightarrow> decoder \<Rightarrow> decoder option" where
  "blocksAfter zl 0 d = Some d"
| "blocksAfter zl (Suc k) d =
     (case decode_step zl d of
        Inr (Continue u, d') \<Rightarrow> blocksAfter zl k d'
      | _ \<Rightarrow> None)"

fun layersAfter :: "zlib \<Rightarrow> nat \<Rightarrow> lstate \<Rightarrow> decoder \<Rightarrow> (lstate \<times> decoder) option" where
  "layersAfter zl 0 ls d = Some (ls, d)"
| "layersAfter zl (Suc m) ls d =
     (case decodeLayers_step zl ls d of
        Inr (Continue ls', d') \<Rightarrow> layersAfter zl m ls' d'
      | _ \<Rightarrow> None)"

definition bankAt :: "zlib \<Rightarrow> byte list \<Rightarrow> nat \<Rightarrow> nat \<Rightarrow> (lstate \<times> decoder) option" where
  "bankAt zl r k m =
     (case newDecoder r of
        Inl a \<Rightarrow> None
      | Inr d0 \<Rightarrow>
          (case blocksAfter zl k d0 of
             None \<Rightarrow> None
           | Some d1 \<Rightarrow>
               (case readBlockHeader d1 of
                  Inl a \<Rightarrow> None
                | Inr (bh, d2) \<Rightarrow>
                    if bh_id bh = layerStartBlock then layersAfter zl m zeroLstate d2
                    else None)))"

definition channelAt :: "lstate \<Rightarrow> decoder \<Rightarrow> (int \<times> nat \<times> decoder) option" where
  "channelAt ls d =
     (case readBlockHeader d of
        Inl a \<Rightarrow> None
      | Inr (bh, d1) \<Rightarrow>
          if bh_id bh = channelBlock then
            (case readChannelInfo d1 of
               Inl a \<Rightarrow> None
             | Inr ((compressedLayerLen, uncompressedImageLen, bitmapType, channelType), d2) \<Rightarrow>
                 if bitmapType = dibImage \<and> 0 \<le> layerBytes ls
                    \<and> comp_d d2 = compressionRLE
                 then Some (compressedLayerLen, nat (layerBytes ls),
                            if length (tmpBuf d2) < nat (layerBytes ls)
                            then makeTmpBuf (nat (layerBytes ls)) d2 else d2)
                 else None)
          else None)"

definition rleCall :: "zlib \<Rightarrow> byte list \<Rightarrow> nat \<Rightarrow> nat \<Rightarrow> (int \<times> nat \<times> decoder) option" where
  "rleCall zl r k m =
     (case bankAt zl r k m of None \<Rightarrow> None | Some (ls, d) \<Rightarrow> channelAt ls d)"

definition rleAborts :: "zlib \<Rightarrow> byte list \<Rightarrow> nat \<Rightarrow> nat \<Rightarrow> abort \<Rightarrow> bool" where
  "rleAborts zl r k m a =
     (case rleCall zl r k m of
        None \<Rightarrow> False
      | Some (n, lb, d) \<Rightarrow> (case rle n 0 lb d of Inl a' \<Rightarrow> a' = a | Inr x \<Rightarrow> False))"


text \<open>
  A version 5 file, run-length compressed, with a palette of five colours: a 20 by 1 image
  of depth 8, one layer with one channel whose compressed length is 0. The two files
  differ in byte 125 alone, the fourth byte of the last palette entry.
\<close>

definition padFileA :: "byte list" where
  "padFileA = [80, 97, 105, 110, 116, 32, 83, 104, 111, 112, 32, 80, 114, 111, 32, 73, 109, 97, 103, 101, 32, 70, 105, 108, 101, 10, 26, 0, 0, 0, 0, 0, 5, 0, 0, 0, 126, 66, 75, 0, 0, 0, 42, 0, 0, 0, 42, 0, 0, 0, 20, 0, 0, 0, 1, 0, 0, 0, 0, 0, 0, 0, 0, 0, 0, 0, 0, 1, 0, 8, 0, 1, 0, 0, 0, 0, 0, 0, 0, 0, 0, 0, 0, 0, 0, 0, 1, 0, 126, 66, 75, 0, 2, 0, 28, 0, 0, 0, 8, 0, 0, 0, 5, 0, 0, 0, 1, 2, 3, 0, 4, 5, 6, 0, 7, 8, 9, 0, 10, 11, 12, 0, 13, 14, 15, 0, 126, 66, 75, 0, 3, 0, 0, 0, 0, 0, 126, 66, 75, 0, 4, 0, 129, 0, 0, 0, 0, 0, 0, 0, 0, 0, 0, 0, 0, 0, 0, 0, 0, 0, 0, 20, 0, 0, 0, 1, 0, 0, 0, 0, 0, 0, 0, 0, 0, 0, 0, 20, 0, 0, 0, 1, 0, 0, 0, 255, 0, 1, 0, 0, 0, 0, 0, 0, 0, 0, 0, 0, 0, 0, 0, 0, 0, 0, 0, 0, 0, 0, 0, 0, 0, 0, 0, 0, 0, 0, 0, 0, 0, 0, 0, 0, 0, 0, 0, 0, 0, 0, 0, 0, 0, 0, 0, 0, 0, 0, 0, 0, 0, 0, 0, 0, 0, 0, 0, 0, 0, 0, 0, 0, 0, 0, 0, 0, 0, 0, 0, 0, 0, 0, 0, 0, 0, 0, 0, 0, 0, 0, 0, 0, 0, 1, 0, 1, 0, 126, 66, 75, 0, 5, 0, 16, 0, 0, 0, 16, 0, 0, 0, 0, 0, 0, 0, 20, 0, 0, 0, 0, 0, 0, 0]"

definition padFileB :: "byte list" where
  "padFileB = [80, 97, 105, 110, 116, 32, 83, 104, 111, 112, 32, 80, 114, 111, 32, 73, 109, 97, 103, 101, 32, 70, 105, 108, 101, 10, 26, 0, 0, 0, 0, 0, 5, 0, 0, 0, 126, 66, 75, 0, 0, 0, 42, 0, 0, 0, 42, 0, 0, 0, 20, 0, 0, 0, 1, 0, 0, 0, 0, 0, 0, 0, 0, 0, 0, 0, 0, 1, 0, 8, 0, 1, 0, 0, 0, 0, 0, 0, 0, 0, 0, 0, 0, 0, 0, 0, 1, 0, 126, 66, 75, 0, 2, 0, 28, 0, 0, 0, 8, 0, 0, 0, 5, 0, 0, 0, 1, 2, 3, 0, 4, 5, 6, 0, 7, 8, 9, 0, 10, 11, 12, 0, 13, 14, 15, 77, 126, 66, 75, 0, 3, 0, 0, 0, 0, 0, 126, 66, 75, 0, 4, 0, 129, 0, 0, 0, 0, 0, 0, 0, 0, 0, 0, 0, 0, 0, 0, 0, 0, 0, 0, 20, 0, 0, 0, 1, 0, 0, 0, 0, 0, 0, 0, 0, 0, 0, 0, 20, 0, 0, 0, 1, 0, 0, 0, 255, 0, 1, 0, 0, 0, 0, 0, 0, 0, 0, 0, 0, 0, 0, 0, 0, 0, 0, 0, 0, 0, 0, 0, 0, 0, 0, 0, 0, 0, 0, 0, 0, 0, 0, 0, 0, 0, 0, 0, 0, 0, 0, 0, 0, 0, 0, 0, 0, 0, 0, 0, 0, 0, 0, 0, 0, 0, 0, 0, 0, 0, 0, 0, 0, 0, 0, 0, 0, 0, 0, 0, 0, 0, 0, 0, 0, 0, 0, 0, 0, 0, 0, 0, 0, 0, 1, 0, 1, 0, 126, 66, 75, 0, 5, 0, 16, 0, 0, 0, 16, 0, 0, 0, 0, 0, 0, 0, 20, 0, 0, 0, 0, 0, 0, 0]"

text \<open>
  A version 5 file whose header gives a width of 5, a height of 7 and a depth of 8, with a
  palette of two colours and one layer of 2 by 1 pixels with one channel, not compressed.
\<close>

definition cfgFile :: "byte list" where
  "cfgFile = [80, 97, 105, 110, 116, 32, 83, 104, 111, 112, 32, 80, 114, 111, 32, 73, 109, 97, 103, 101, 32, 70, 105, 108, 101, 10, 26, 0, 0, 0, 0, 0, 5, 0, 0, 0, 126, 66, 75, 0, 0, 0, 42, 0, 0, 0, 42, 0, 0, 0, 5, 0, 0, 0, 7, 0, 0, 0, 0, 0, 0, 0, 0, 0, 0, 0, 0, 0, 0, 8, 0, 1, 0, 0, 0, 0, 0, 0, 0, 0, 0, 0, 0, 0, 0, 0, 1, 0, 126, 66, 75, 0, 2, 0, 16, 0, 0, 0, 8, 0, 0, 0, 2, 0, 0, 0, 0, 0, 0, 0, 255, 255, 255, 0, 126, 66, 75, 0, 3, 0, 0, 0, 0, 0, 126, 66, 75, 0, 4, 0, 129, 0, 0, 0, 0, 0, 0, 0, 0, 0, 0, 0, 0, 0, 0, 0, 0, 0, 0, 2, 0, 0, 0, 1, 0, 0, 0, 0, 0, 0, 0, 0, 0, 0, 0, 2, 0, 0, 0, 1, 0, 0, 0, 255, 0, 1, 0, 0, 0, 0, 0, 0, 0, 0, 0, 0, 0, 0, 0, 0, 0, 0, 0, 0, 0, 0, 0, 0, 0, 0, 0, 0, 0, 0, 0, 0, 0, 0, 0, 0, 0, 0, 0, 0, 0, 0, 0, 0, 0, 0, 0, 0, 0, 0, 0, 0, 0, 0, 0, 0, 0, 0, 0, 0, 0, 0, 0, 0, 0, 0, 0, 0, 0, 0, 0, 0, 0, 0, 0, 0, 0, 0, 0, 0, 0, 0, 0, 0, 0, 1, 0, 1, 0, 126, 66, 75, 0, 5, 0, 18, 0, 0, 0, 16, 0, 0, 0, 2, 0, 0, 0, 2, 0, 0, 0, 0, 0, 0, 0, 1, 1]"

text \<open>
  How many bytes the buffered reader has taken from the caller's reader \<open>r\<close> when the
  decoder is \<open>d\<close>: those the decoder has consumed and those waiting in the buffer.
\<close>

definition drained :: "byte list \<Rightarrow> decoder \<Rightarrow> nat" where
  "drained r d = length r - length (inp d) + ahead d"

definition drainedByHeader :: "byte list \<Rightarrow> nat option" where
  "drainedByHeader r = (case newDecoder r of Inl a \<Rightarrow> None | Inr d \<Rightarrow> Some (drained r d))"

text \<open>
  Every alpha sample of a pixel array is at its maximum: the fourth byte of each pixel of
  four bytes, the seventh and eighth byte of each pixel of eight.
\<close>

definition opaque8 :: "byte list \<Rightarrow> bool" where
  "opaque8 pix \<longleftrightarrow> (\<forall>i < length pix. i mod 4 = 3 \<longrightarrow> pix ! i = 255)"

definition opaque16 :: "byte list \<Rightarrow> bool" where
  "opaque16 pix \<longleftrightarrow> (\<forall>i < length pix. i mod 8 = 6 \<or> i mod 8 = 7 \<longrightarrow> pix ! i = 255)"

text \<open>
  The sub-block in front of the decoder is not a channel of the image bitmap, or its
  channel type is red, green or blue (\<open>channelRed = 1\<close>, \<open>channelGreen = 2\<close>,
  \<open>channelBlue = 3\<close>).
\<close>

definition rgbChannel :: "decoder \<Rightarrow> bool" where
  "rgbChannel d =
     (case readBlockHeader d of
        Inl a \<Rightarrow> True
      | Inr (bh, d1) \<Rightarrow>
          if bh_id bh = channelBlock then
            (case readChannelInfo d1 of
               Inl a \<Rightarrow> True
             | Inr ((compressedLayerLen, uncompressedImageLen, bitmapType, channelType), d2) \<Rightarrow>
                 if bitmapType = dibImage
                 then channelType = 1 \<or> channelType = 2 \<or> channelType = 3
                 else True)
          else True)"

text \<open>
  \<open>rgbOnly zl r\<close>: every channel of the image bitmap that \<open>Decode\<close> comes to in the
  file \<open>r\<close> is a red, a green or a blue channel. \<open>rgbLayers\<close> follows the loop of
  \<open>decodeLayers\<close>, \<open>rgbBlocks\<close> the loop of \<open>decode\<close> up to the layer bank.
\<close>

function rgbLayers :: "zlib \<Rightarrow> lstate \<Rightarrow> decoder \<Rightarrow> bool" where
  "rgbLayers zl ls d =
     (rgbChannel d \<and>
      (case decodeLayers_step zl ls d of
         Inl a \<Rightarrow> True
       | Inr (Return x, d') \<Rightarrow> True
       | Inr (Continue ls', d') \<Rightarrow> rgbLayers zl ls' d'))"
  by pat_completeness auto
termination
  by (relation "measure (\<lambda>(zl, ls, d). length (inp d))")
     (auto dest: decodeLayers_step_shorter)

declare rgbLayers.simps [simp del]

function rgbBlocks :: "zlib \<Rightarrow> decoder \<Rightarrow> bool" where
  "rgbBlocks zl d =
     (case readBlockHeader d of
        Inl a \<Rightarrow> True
      | Inr (bh, d1) \<Rightarrow>
          if bh_id bh = layerStartBlock then rgbLayers zl zeroLstate d1
          else
            (case decode_step zl d of
               Inl a \<Rightarrow> True
             | Inr (Return x, d') \<Rightarrow> True
             | Inr (Continue u, d') \<Rightarrow> rgbBlocks zl d'))"
  by pat_completeness auto
termination
  by (relation "measure (\<lambda>(zl, d). length (inp d))") (auto dest: decode_step_shorter)

declare rgbBlocks.simps [simp del]

definition rgbOnly :: "zlib \<Rightarrow> byte list \<Rightarrow> bool" where
  "rgbOnly zl r = (case newDecoder r of Inl a \<Rightarrow> True | Inr d \<Rightarrow> rgbBlocks zl d)"

text \<open>
  A version 5 file: a 1 by 1 image of depth 48, not compressed, one layer with three
  channels of two bytes each (red, green, blue).
\<close>

definition rgb48File :: "byte list" where
  "rgb48File = [80, 97, 105, 110, 116, 32, 83, 104, 111, 112, 32, 80, 114, 111, 32, 73, 109, 97, 103, 101, 32, 70, 105, 108, 101, 10, 26, 0, 0, 0, 0, 0, 5, 0, 0, 0, 126, 66, 75, 0, 0, 0, 42, 0, 0, 0, 42, 0, 0, 0, 1, 0, 0, 0, 1, 0, 0, 0, 0, 0, 0, 0, 0, 0, 0, 0, 0, 0, 0, 48, 0, 1, 0, 0, 0, 0, 0, 0, 0, 0, 0, 0, 0, 0, 0, 0, 1, 0, 126, 66, 75, 0, 3, 0, 0, 0, 0, 0, 126, 66, 75, 0, 4, 0, 129, 0, 0, 0, 0, 0, 0, 0, 0, 0, 0, 0, 0, 0, 0, 0, 0, 0, 0, 1, 0, 0, 0, 1, 0, 0, 0, 0, 0, 0, 0, 0, 0, 0, 0, 1, 0, 0, 0, 1, 0, 0, 0, 255, 0, 1, 0, 0, 0, 0, 0, 0, 0, 0, 0, 0, 0, 0, 0, 0, 0, 0, 0, 0, 0, 0, 0, 0, 0, 0, 0, 0, 0, 0, 0, 0, 0, 0, 0, 0, 0, 0, 0, 0, 0, 0, 0, 0, 0, 0, 0, 0, 0, 0, 0, 0, 0, 0, 0, 0, 0, 0, 0, 0, 0, 0, 0, 0, 0, 0, 0, 0, 0, 0, 0, 0, 0, 0, 0, 0, 0, 0, 0, 0, 0, 0, 0, 0, 0, 1, 0, 3, 0, 126, 66, 75, 0, 5, 0, 18, 0, 0, 0, 16, 0, 0, 0, 2, 0, 0, 0, 2, 0, 0, 0, 0, 0, 1, 0, 17, 18, 126, 66, 75, 0, 5, 0, 18, 0, 0, 0, 16, 0, 0, 0, 2, 0, 0, 0, 2, 0, 0, 0, 0, 0, 2, 0, 33, 34, 126, 66, 75, 0, 5, 0, 18, 0, 0, 0, 16, 0, 0, 0, 2, 0, 0, 0, 2, 0, 0, 0, 0, 0, 3, 0, 49, 50]"

definition rleGoal :: "int \<Rightarrow> nat \<Rightarrow> nat \<Rightarrow> decoder \<Rightarrow> bool" where
  "rleGoal n j lb d \<longleftrightarrow>
     (\<forall>j' d'. rle n j lb d = Inr (j', d') \<longrightarrow> lb \<le> length (tmpBuf d) \<longrightarrow> j \<le> length (tmpBuf d) \<longrightarrow>
        (\<exists>k out. nat n \<le> k \<and> k \<le> length (inp d) \<and> inp d' = drop k (inp d)
           \<and> rleExpand (take k (inp d)) = Some out
           \<and> j' = j + length out \<and> j' \<le> length (tmpBuf d')
           \<and> take j' (tmpBuf d') = take j (tmpBuf d) @ out
           \<and> length (tmpBuf d') = length (tmpBuf d)
           \<and> (rleExpand (take (nat n) (inp d)) \<noteq> None \<longrightarrow> k = nat n)))"

lemma rleGoal_all: "rleGoal n j lb d"
proof (induction n j lb d rule: rle_induct)
  case (stop n j lb d)
  then show ?case by (auto simp: rleGoal_def rle_stop intro!: exI [of _ 0])
next
  case (eof1 n j lb d e)
  then show ?case by (simp add: rleGoal_def rle_eof1)
next
  case (eof2 n j lb d c d1 e)
  then show ?case by (simp add: rleGoal_def rle_eof2)
next
  case (overrun n j lb d c d1 b d2)
  then show ?case by (simp add: rleGoal_def rle_overrun)
next
  case (run n j lb d c d1 b d2)
  let ?r = "unat c - 128"
  let ?d3 = "d2\<lparr>tmpBuf := take j (tmpBuf d2) @ replicate ?r b @ drop (j + ?r) (tmpBuf d2)\<rparr>"
  from readByte_effect [OF run(2)] readByte_effect [OF run(4)]
  have i: "inp d = c # b # inp d2" and t2: "tmpBuf d2 = tmpBuf d"
    by simp_all
  show ?case unfolding rleGoal_def
  proof (intro allI impI)
    fix j' d'
    assume r: "rle n j lb d = Inr (j', d')" and lb: "lb \<le> length (tmpBuf d)"
      and j: "j \<le> length (tmpBuf d)"
    from r run have r3: "rle (n - 1 - 1) (j + ?r) lb ?d3 = Inr (j', d')" by (simp add: rle_run)
    from run(5) lb have jr: "j + ?r \<le> length (tmpBuf d)" by simp
    have l3: "length (tmpBuf ?d3) = length (tmpBuf d)" using jr t2 by simp
    have lb3: "lb \<le> length (tmpBuf ?d3)" and jr3: "j + ?r \<le> length (tmpBuf ?d3)"
      using lb jr l3 by simp_all
    from run(6) [unfolded rleGoal_def, rule_format, OF r3 lb3 jr3] obtain k out where k: "nat (n - 1 - 1) \<le> k" "k \<le> length (inp ?d3)"
      "inp d' = drop k (inp ?d3)" "rleExpand (take k (inp ?d3)) = Some out"
      "j' = j + ?r + length out" "j' \<le> length (tmpBuf d')"
      "take j' (tmpBuf d') = take (j + ?r) (tmpBuf ?d3) @ out"
      "length (tmpBuf d') = length (tmpBuf ?d3)"
      "rleExpand (take (nat (n - 1 - 1)) (inp ?d3)) \<noteq> None \<longrightarrow> k = nat (n - 1 - 1)"
      by blast
    have t3: "take (j + ?r) (tmpBuf ?d3) = take j (tmpBuf d) @ replicate ?r b"
      using jr j t2 by simp
    have e: "rleExpand (take (Suc (Suc k)) (inp d)) = Some (replicate ?r b @ out)"
      using k(4) run(3) by (simp add: i)
    have ex: "rleExpand (take (nat n) (inp d)) \<noteq> None \<longrightarrow> Suc (Suc k) = nat n"
    proof
      assume a: "rleExpand (take (nat n) (inp d)) \<noteq> None"
      from run(1) obtain m where m: "nat n = Suc m" by (cases "nat n") auto
      with a run(3) have "m \<noteq> 0" by (cases m) (auto simp: i)
      then obtain m' where m': "m = Suc m'" by (cases m) auto
      from m m' have n2: "nat (n - 1 - 1) = m'" by linarith
      from a run(3) m m' have "rleExpand (take m' (inp d2)) \<noteq> None" by (auto simp: i)
      with k(9) n2 have "k = m'" by simp
      with m m' show "Suc (Suc k) = nat n" by simp
    qed
    have "nat n \<le> Suc (Suc k)" using k(1) by linarith
    moreover have "Suc (Suc k) \<le> length (inp d)" using k(2) by (simp add: i)
    moreover have "inp d' = drop (Suc (Suc k)) (inp d)" using k(3) by (simp add: i)
    moreover have "j' = j + length (replicate ?r b @ out)" using k(5) by simp
    moreover have "take j' (tmpBuf d') = take j (tmpBuf d) @ (replicate ?r b @ out)"
      using k(7) t3 by simp
    moreover have "length (tmpBuf d') = length (tmpBuf d)" using k(8) l3 by simp
    ultimately show "\<exists>k out. nat n \<le> k \<and> k \<le> length (inp d) \<and> inp d' = drop k (inp d)
           \<and> rleExpand (take k (inp d)) = Some out
           \<and> j' = j + length out \<and> j' \<le> length (tmpBuf d')
           \<and> take j' (tmpBuf d') = take j (tmpBuf d) @ out
           \<and> length (tmpBuf d') = length (tmpBuf d)
           \<and> (rleExpand (take (nat n) (inp d)) \<noteq> None \<longrightarrow> k = nat n)"
      using e ex k(6) by blast
  qed
next
  case (literr n j lb d c d1 e)
  then show ?case by (simp add: rleGoal_def rle_literr)
next
  case (lit n j lb d c d1 d2)
  let ?c = "unat c"
  from readByte_effect [OF lit(2)]
  have i: "inp d = c # inp d1" and t1: "tmpBuf d1 = tmpBuf d"
    by simp_all
  from readAt_effect [OF lit(4)] have c: "?c \<le> length (inp d1)"
    and jc: "j + ?c \<le> length (tmpBuf d)" and i2: "inp d2 = drop ?c (inp d1)"
    and t2: "tmpBuf d2 = take j (tmpBuf d) @ take ?c (inp d1) @ drop (j + ?c) (tmpBuf d)"
    using t1 by auto
  show ?case unfolding rleGoal_def
  proof (intro allI impI)
    fix j' d'
    assume r: "rle n j lb d = Inr (j', d')" and lb: "lb \<le> length (tmpBuf d)"
      and j: "j \<le> length (tmpBuf d)"
    from r lit have r3: "rle (n - int ?c - 1) (j + ?c) lb d2 = Inr (j', d')"
      by (simp add: rle_lit)
    have l2: "length (tmpBuf d2) = length (tmpBuf d)" using jc c t2 by simp
    have lb3: "lb \<le> length (tmpBuf d2)" and jr3: "j + ?c \<le> length (tmpBuf d2)"
      using lb jc l2 by simp_all
    from lit(5) [unfolded rleGoal_def, rule_format, OF r3 lb3 jr3] obtain k out where k: "nat (n - int ?c - 1) \<le> k" "k \<le> length (inp d2)"
      "inp d' = drop k (inp d2)" "rleExpand (take k (inp d2)) = Some out"
      "j' = j + ?c + length out" "j' \<le> length (tmpBuf d')"
      "take j' (tmpBuf d') = take (j + ?c) (tmpBuf d2) @ out"
      "length (tmpBuf d') = length (tmpBuf d2)"
      "rleExpand (take (nat (n - int ?c - 1)) (inp d2)) \<noteq> None \<longrightarrow> k = nat (n - int ?c - 1)"
      by blast
    have t3: "take (j + ?c) (tmpBuf d2) = take j (tmpBuf d) @ take ?c (inp d1)"
      using jc j c t2 by simp
    have tk: "take (Suc (?c + k)) (inp d) = c # take ?c (inp d1) @ take k (inp d2)"
      using c by (simp add: i i2 take_add)
    have e: "rleExpand (take (Suc (?c + k)) (inp d)) = Some (take ?c (inp d1) @ out)"
      unfolding tk using k(4) lit(3) c by simp
    have ex: "rleExpand (take (nat n) (inp d)) \<noteq> None \<longrightarrow> Suc (?c + k) = nat n"
    proof
      assume a: "rleExpand (take (nat n) (inp d)) \<noteq> None"
      from lit(1) obtain m where m: "nat n = Suc m" by (cases "nat n") auto
      with a lit(3) have mc: "?c \<le> m"
        by (auto simp: i min_def split: if_splits)
      from m mc have n2: "nat (n - int ?c - 1) = m - ?c" by linarith
      have "drop ?c (take m (inp d1)) = take (m - ?c) (inp d2)"
        by (simp add: i2 drop_take)
      with a lit(3) m mc c have "rleExpand (take (m - ?c) (inp d2)) \<noteq> None"
        by (auto simp: i min_def split: if_splits)
      with k(9) n2 have "k = m - ?c" by simp
      with m mc show "Suc (?c + k) = nat n" by simp
    qed
    have "nat n \<le> Suc (?c + k)" using k(1) by linarith
    moreover have "Suc (?c + k) \<le> length (inp d)" using k(2) c by (simp add: i i2)
    moreover have "inp d' = drop (Suc (?c + k)) (inp d)"
      using k(3) by (simp add: i i2 add.commute)
    moreover have "j' = j + length (take ?c (inp d1) @ out)" using k(5) c by simp
    moreover have "take j' (tmpBuf d') = take j (tmpBuf d) @ (take ?c (inp d1) @ out)"
      using k(7) t3 by simp
    moreover have "length (tmpBuf d') = length (tmpBuf d)" using k(8) l2 by simp
    ultimately show "\<exists>k out. nat n \<le> k \<and> k \<le> length (inp d) \<and> inp d' = drop k (inp d)
           \<and> rleExpand (take k (inp d)) = Some out
           \<and> j' = j + length out \<and> j' \<le> length (tmpBuf d')
           \<and> take j' (tmpBuf d') = take j (tmpBuf d) @ out
           \<and> length (tmpBuf d') = length (tmpBuf d)
           \<and> (rleExpand (take (nat n) (inp d)) \<noteq> None \<longrightarrow> k = nat n)"
      using e ex k(6) by blast
  qed
qed

lemma readByte_Inl: "readByte d = Inl e \<Longrightarrow> e = Err io_EOF"
  by (auto simp: readByte_def split: list.splits)

lemma readAt_Inl:
  "readAt off n d = Inl e \<Longrightarrow> e = RuntimePanic \<or> e = Err io_EOF \<or> e = Err io_ErrUnexpectedEOF"
  by (auto simp: readAt_def split: if_splits)

lemma rle_no_FormatError: "rle n j lb d \<noteq> Inl (Err (FormatError m))"
proof (induction n j lb d rule: rle_induct)
  case (stop n j lb d)
  then show ?case by (simp add: rle_stop)
next
  case (eof1 n j lb d e)
  then show ?case by (auto simp: rle_eof1 dest: readByte_Inl)
next
  case (eof2 n j lb d c d1 e)
  then show ?case by (auto simp: rle_eof2 dest: readByte_Inl)
next
  case (overrun n j lb d c d1 b d2)
  then show ?case by (simp add: rle_overrun)
next
  case (run n j lb d c d1 b d2)
  then show ?case by (simp add: rle_run)
next
  case (literr n j lb d c d1 e)
  then show ?case by (auto simp: rle_literr dest: readAt_Inl)
next
  case (lit n j lb d c d1 d2)
  then show ?case by (simp add: rle_lit)
qed

lemma rle_run_overrun:
  assumes "0 < n" and "inp d = c # b # rest" and "128 < unat c" and "lb < j + (unat c - 128)"
  shows "rle n j lb d = Inl RuntimePanic"
proof -
  from assms(2) obtain d1 d2 where "readByte d = Inr (c, d1)" "readByte d1 = Inr (b, d2)"
    by (simp add: readByte_def)
  with assms show ?thesis by (simp add: rle_overrun)
qed

lemma rle_literal_overrun:
  assumes "0 < n" and "inp d = c # rest" and "unat c \<le> 128"
    and "length (tmpBuf d) < j + unat c"
  shows "rle n j lb d = Inl RuntimePanic"
proof -
  from assms(2) obtain d1 where r: "readByte d = Inr (c, d1)" and t: "tmpBuf d1 = tmpBuf d"
    by (simp add: readByte_def)
  from assms(4) t have "readAt j (unat c) d1 = Inl RuntimePanic"
    by (simp add: readAt_def)
  with assms r show ?thesis by (simp add: rle_literr)
qed

lemma rle_minimal:
  "rle n j lb d = Inr (j', d') \<Longrightarrow> nat n \<le> k' \<Longrightarrow> k' < length (inp d) - length (inp d')
     \<Longrightarrow> rleExpand (take k' (inp d)) = None"
proof (induction n j lb d arbitrary: k' rule: rle_induct)
  case (stop n j lb d)
  then show ?case by (simp add: rle_stop)
next
  case (eof1 n j lb d e)
  then show ?case by (simp add: rle_eof1)
next
  case (eof2 n j lb d c d1 e)
  then show ?case by (simp add: rle_eof2)
next
  case (overrun n j lb d c d1 b d2)
  then show ?case by (simp add: rle_overrun)
next
  case (run n j lb d c d1 b d2)
  let ?r = "unat c - 128"
  let ?d3 = "d2\<lparr>tmpBuf := take j (tmpBuf d2) @ replicate ?r b @ drop (j + ?r) (tmpBuf d2)\<rparr>"
  from readByte_effect [OF run(2)] readByte_effect [OF run(4)]
  have i: "inp d = c # b # inp d2" by simp
  from run have r3: "rle (n - 1 - 1) (j + ?r) lb ?d3 = Inr (j', d')" by (simp add: rle_run)
  from run(1,8) obtain m where m: "k' = Suc m" by (cases k') auto
  show ?case
  proof (cases m)
    case 0
    with m run(3) show ?thesis by (simp add: i)
  next
    case (Suc m')
    have a: "nat (n - 1 - 1) \<le> m'" using run(8) m Suc by linarith
    have b: "m' < length (inp ?d3) - length (inp d')" using run(9) m Suc by (simp add: i)
    from run(6) [OF r3 a b] have "rleExpand (take m' (inp d2)) = None" by simp
    with m Suc run(3) show ?thesis by (simp add: i)
  qed
next
  case (literr n j lb d c d1 e)
  then show ?case by (simp add: rle_literr)
next
  case (lit n j lb d c d1 d2)
  let ?c = "unat c"
  from readByte_effect [OF lit(2)] have i: "inp d = c # inp d1" by simp
  from readAt_effect [OF lit(4)] have c: "?c \<le> length (inp d1)"
    and i2: "inp d2 = drop ?c (inp d1)" by auto
  from lit have r3: "rle (n - int ?c - 1) (j + ?c) lb d2 = Inr (j', d')"
    by (simp add: rle_lit)
  from lit(1,7) obtain m where m: "k' = Suc m" by (cases k') auto
  show ?case
  proof (cases "m < ?c")
    case True
    with m lit(3) show ?thesis by (simp add: i)
  next
    case False
    have a: "nat (n - int ?c - 1) \<le> m - ?c" using lit(7) m False by linarith
    have b: "m - ?c < length (inp d2) - length (inp d')" using lit(8) m False c
      by (simp add: i i2)
    from lit(5) [OF r3 a b] have e: "rleExpand (take (m - ?c) (inp d2)) = None" .
    have "drop ?c (take m (inp d1)) = take (m - ?c) (inp d2)"
      by (simp add: i2 drop_take)
    with e m False lit(3) c show ?thesis by (simp add: i min_def)
  qed
qed

lemma layersAfter_abort:
  "layersAfter zl m ls d = Some (ls', d') \<Longrightarrow> decodeLayers_step zl ls' d' = Inl a
     \<Longrightarrow> decodeLayers_loop zl ls d = Inl a"
proof (induction m arbitrary: ls d)
  case 0
  then show ?case by (subst decodeLayers_loop.simps) simp
next
  case (Suc m)
  from Suc.prems(1) obtain ls1 d1 where s: "decodeLayers_step zl ls d = Inr (Continue ls1, d1)"
    and r: "layersAfter zl m ls1 d1 = Some (ls', d')"
    by (auto split: sum.splits turn.splits)
  from Suc.IH [OF r Suc.prems(2)] s show ?case by (subst decodeLayers_loop.simps) simp
qed

lemma blocksAfter_abort:
  "blocksAfter zl k d = Some d' \<Longrightarrow> decode_step zl d' = Inl a \<Longrightarrow> decode zl d = Inl a"
proof (induction k arbitrary: d)
  case 0
  then show ?case by (subst decode.simps) simp
next
  case (Suc k)
  from Suc.prems(1) obtain u d1 where s: "decode_step zl d = Inr (Continue u, d1)"
    and r: "blocksAfter zl k d1 = Some d'"
    by (auto split: sum.splits turn.splits)
  from Suc.IH [OF r Suc.prems(2)] s show ?case by (subst decode.simps) simp
qed

lemma channelAt_abort:
  assumes "channelAt ls d = Some (n, lb, d')" and "rle n 0 lb d' = Inl a"
  shows "decodeLayers_step zl ls d = Inl a"
proof -
  have ne: "channelBlock \<noteq> layerBlock" "compressionRLE \<noteq> compressionLZ77"
    by (simp_all add: channelBlock_def layerBlock_def compressionRLE_def compressionLZ77_def)
  from assms(1) obtain bh d1 cl ul bt ct d2 where h: "readBlockHeader d = Inr (bh, d1)"
    and i: "bh_id bh = channelBlock" and c: "readChannelInfo d1 = Inr ((cl, ul, bt, ct), d2)"
    and b: "bt = dibImage" "0 \<le> layerBytes ls" "comp_d d2 = compressionRLE"
    and e: "n = cl" "lb = nat (layerBytes ls)"
      "d' = (if length (tmpBuf d2) < nat (layerBytes ls)
             then makeTmpBuf (nat (layerBytes ls)) d2 else d2)"
    by (auto simp: channelAt_def split: sum.splits if_splits prod.splits)
  have cd: "comp_d d' = compressionRLE" using b(3) e(3) by (simp add: makeTmpBuf_def)
  have "decompress zl n lb d' = Inl a"
    using assms(2) cd ne by (simp add: decompress_def andThen_def gets_def)
  then have "channelStep zl bh ls d1 = Inl a"
    using c b e
    by (auto simp: channelStep_def andThen_def gets_def modify_def ret_def split: if_splits)
  with h i ne show ?thesis by (simp add: decodeLayers_step_def andThen_def)
qed

lemma rleAborts_Decode:
  assumes "rleAborts zl r k m a"
  shows "Decode zl r = catchErrors None a"
proof -
  from assms obtain n lb d where c: "rleCall zl r k m = Some (n, lb, d)"
    and a': "case rle n 0 lb d of Inl a' \<Rightarrow> a' = a | Inr x \<Rightarrow> False"
    by (auto simp: rleAborts_def split: option.splits)
  then have a: "rle n 0 lb d = Inl a" by (cases "rle n 0 lb d") auto
  from c obtain ls d3 where b: "bankAt zl r k m = Some (ls, d3)"
    and ch: "channelAt ls d3 = Some (n, lb, d)"
    by (auto simp: rleCall_def split: option.splits)
  from b obtain d0 d1 bh d2 where n: "newDecoder r = Inr d0"
    and k: "blocksAfter zl k d0 = Some d1" and h: "readBlockHeader d1 = Inr (bh, d2)"
    and i: "bh_id bh = layerStartBlock" and l: "layersAfter zl m zeroLstate d2 = Some (ls, d3)"
    by (auto simp: bankAt_def split: sum.splits option.splits if_splits)
  have ne: "layerStartBlock \<noteq> extendedDataBlock" "layerStartBlock \<noteq> creatorBlock"
    "layerStartBlock \<noteq> colorBlock"
    by (simp_all add: layerStartBlock_def extendedDataBlock_def creatorBlock_def colorBlock_def)
  from layersAfter_abort [OF l channelAt_abort [OF ch a]]
  have "decodeLayers zl d2 = Inl a" by (simp add: decodeLayers_def)
  with h i ne have "decode_step zl d1 = Inl a" by (simp add: decode_step_def andThen_def)
  from blocksAfter_abort [OF k this] n show ?thesis by (simp add: Decode_def)
qed

lemma rle_literal_stored:
  assumes "0 < n" and "inp d = c # rest" and "unat c \<le> 128"
    and "j + unat c \<le> length (tmpBuf d)" and "unat c \<le> length rest"
  shows "\<exists>d2. inp d2 = drop (unat c) rest
           \<and> tmpBuf d2 = take j (tmpBuf d) @ take (unat c) rest @ drop (j + unat c) (tmpBuf d)
           \<and> rle n j lb d = rle (n - int (unat c) - 1) (j + unat c) lb d2"
proof -
  from assms(2) obtain d1 where r: "readByte d = Inr (c, d1)" and t: "tmpBuf d1 = tmpBuf d"
    and i: "inp d1 = rest"
    by (simp add: readByte_def)
  have "\<exists>d2. readAt j (unat c) d1 = Inr ((), d2) \<and> inp d2 = drop (unat c) rest
          \<and> tmpBuf d2 = take j (tmpBuf d) @ take (unat c) rest @ drop (j + unat c) (tmpBuf d)"
  proof (cases "unat c = 0")
    case True
    with assms(4) t i show ?thesis by (simp add: readAt_def)
  next
    case False
    with assms(5) i have "inp d1 \<noteq> []" by auto
    with False assms(4,5) t i show ?thesis by (simp add: readAt_def)
  qed
  then obtain d2 where a: "readAt j (unat c) d1 = Inr ((), d2)"
    and i2: "inp d2 = drop (unat c) rest"
    and t2: "tmpBuf d2 = take j (tmpBuf d) @ take (unat c) rest @ drop (j + unat c) (tmpBuf d)"
    by blast
  from rle_lit [OF assms(1) r _ a] assms(3) i2 t2 show ?thesis by auto
qed

lemma rle_literal_short:
  assumes "0 < n" and "inp d = c # rest" and "unat c \<le> 128"
    and "j + unat c \<le> length (tmpBuf d)" and "length rest < unat c"
  shows "rle n j lb d = Inl (Err (if rest = [] then io_EOF else io_ErrUnexpectedEOF))"
proof -
  from assms(2) obtain d1 where r: "readByte d = Inr (c, d1)" and t: "tmpBuf d1 = tmpBuf d"
    and i: "inp d1 = rest"
    by (simp add: readByte_def)
  have "readAt j (unat c) d1 = Inl (Err (if rest = [] then io_EOF else io_ErrUnexpectedEOF))"
    using assms(4,5) t i by (auto simp: readAt_def)
  from rle_literr [OF assms(1) r _ this] assms(3) show ?thesis by simp
qed

lemma rleOverrunFile_rleAborts: "rleAborts noZlib rleOverrunFile 0 1 RuntimePanic"
  by code_simp

section \<open>Runs on concrete inputs\<close>

lemma result_rest_Inr:
  "result_of m d = Inr a \<Longrightarrow> rest_of m d = Some xs \<Longrightarrow> \<exists>d'. m d = Inr (a, d') \<and> inp d' = xs"
  by (auto simp: result_of_def rest_of_def split: sum.splits)

lemma readLayerName_legacy:
  assumes "versionMajor d < 4" and "256 \<le> length (inp d)"
  shows "result_of readLayerName d = Inr (TrimSpace (take 256 (inp d)))"
proof -
  from assms(2) have "inp d \<noteq> []" by auto
  with assms show ?thesis
    by (simp add: result_of_def readLayerName_def andThen_def gets_def readString_def read_def
          readAt_def makeTmpBuf_def modify_def ret_def subslice_def Let_def not_le [symmetric])
qed

lemma trimRight_snoc_space: "trimRight (ys @ [32]) = trimRight ys"
proof -
  have "trailingSpace (ys @ [32]) = 1" by (simp add: trailingSpace_def spaceRune_def)
  then show ?thesis by (subst trimRight.simps) simp
qed

lemma trimRight_padding: "trimRight (ys @ replicate n 32) = trimRight ys"
proof (induction n)
  case 0
  show ?case by simp
next
  case (Suc n)
  have "ys @ replicate (Suc n) 32 = (ys @ replicate n 32) @ [32]"
    by (simp add: replicate_append_same)
  with Suc trimRight_snoc_space [of "ys @ replicate n 32"] show ?case by simp
qed

lemma TrimSpace_padded_A: "TrimSpace (32 # 65 # replicate n 32) = [65]"
proof -
  have l1: "leadingSpace (32 # 65 # replicate n 32) = 1"
    by (simp add: leadingSpace_def spaceRune_def)
  have l2: "leadingSpace (65 # replicate n 32) = 0"
    by (cases n) (simp_all add: leadingSpace_def spaceRune_def split: list.splits)
  have "trimLeft (32 # 65 # replicate n 32) = trimLeft (65 # replicate n 32)"
    using l1 by (subst trimLeft.simps) simp
  also have "\<dots> = 65 # replicate n 32" using l2 by (subst trimLeft.simps) simp
  finally have tl: "trimLeft (32 # 65 # replicate n 32) = [65] @ replicate n 32" by simp
  have "trailingSpace [65] = 0" by (simp add: trailingSpace_def spaceRune_def)
  then have "trimRight [65] = [65]" by (subst trimRight.simps) simp
  then show ?thesis by (simp only: TrimSpace_def tl trimRight_padding)
qed

lemma legacy_name_eval:
  "result_of readLayerName (decoderAt 3 (32 # 65 # replicate 254 32)) = Inr [65]"
proof -
  have "result_of readLayerName (decoderAt 3 (32 # 65 # replicate 254 32))
          = Inr (TrimSpace (take 256 (inp (decoderAt 3 (32 # 65 # replicate 254 32)))))"
    by (rule readLayerName_legacy) (simp_all add: decoderAt_def zeroDecoder_def)
  then show ?thesis by (simp add: decoderAt_def zeroDecoder_def TrimSpace_padded_A)
qed

lemma Decode_decodeRun:
  "Decode zl r = (case decodeRun zl r of Inl a \<Rightarrow> catchErrors None a
                  | Inr (i, d') \<Rightarrow> Returned i None)"
  by (simp add: Decode_def decodeRun_def split: sum.splits)

lemma rgbFile_Decode:
  "Decode noZlib rgbFile = Returned (Some (ImageRGBA \<lparr>Pix = [17, 34, 51, 255], Stride = 4,
      Rect_i = \<lparr>MinX = 0, MinY = 0, MaxX = 1, MaxY = 1\<rparr>\<rparr>)) None"
  by code_simp

lemma rgbFile_DecodeConfig:
  "DecodeConfig rgbFile = Returned \<lparr>ColorModel = RGBAModel, Width = 1, Height = 1\<rparr> None"
  by code_simp

lemma skippedBlock_header:
  "result_of readBlockHeader (decoderAt 5 skippedBlock)
     = Inr \<lparr>bh_id = 7, dataLen = 3, initLen = 0xDEADBEEF\<rparr>"
  "rest_of readBlockHeader (decoderAt 5 skippedBlock) = Some [1, 2, 3, 9]"
  by code_simp+

lemma skippedBlock_decode_step:
  "result_of (decode_step noZlib) (decoderAt 5 skippedBlock) = Inr (Continue ())"
  "rest_of (decode_step noZlib) (decoderAt 5 skippedBlock) = Some [9]"
  by code_simp+

lemma skippedBlock_decodeLayers_step:
  "result_of (decodeLayers_step noZlib zeroLstate) (decoderAt 5 skippedBlock)
     = Inr (Continue zeroLstate)"
  "rest_of (decodeLayers_step noZlib zeroLstate) (decoderAt 5 skippedBlock) = Some [9]"
  by code_simp+

lemma block33_header:
  "result_of readBlockHeader (decoderAt 13 block33)
     = Inr \<lparr>bh_id = 33, dataLen = 2, initLen = 0xDEADBEEF\<rparr>"
  "rest_of readBlockHeader (decoderAt 13 block33) = Some [1, 2, 8, 0, 0, 0, 3, 4, 5, 6, 9, 9]"
  by code_simp+

lemma block33_decodeLayers_step:
  "result_of (decodeLayers_step noZlib zeroLstate) (decoderAt 13 block33)
     = Inr (Continue zeroLstate)"
  "rest_of (decodeLayers_step noZlib zeroLstate) (decoderAt 13 block33) = Some [9, 9]"
  by code_simp+

lemma rgbFile_newDecoder:
  "(case newDecoder rgbFile of Inl a \<Rightarrow> None | Inr d \<Rightarrow> Some (inp d)) = Some (drop 88 rgbFile)"
  by code_simp

lemma rleOverrunFile_Decode: "Decode noZlib rleOverrunFile = Panicked"
  by code_simp

lemma rle_short_count:
  "rest_of (decompress noZlib 1 2) (rleDecoder [130, 7, 9]) = Some [9]"
  by code_simp

lemma rle_whole_items:
  "result_of (decompress noZlib 5 4) (rleDecoder [130, 7, 2, 8, 9, 5]) = Inr ()"
  "rest_of (decompress noZlib 5 4) (rleDecoder [130, 7, 2, 8, 9, 5]) = Some [5]"
  "rleExpand (take 5 [130, 7, 2, 8, 9, 5]) = Some [7, 7, 8, 9]"
  by code_simp+

lemma rle_silent_literal:
  "result_of (decompress noZlib 3 1) (rleDecoder [2, 8, 9]) = Inr ()"
  by code_simp

lemma maskFile5_Decode:
  "Decode noZlib maskFile5 = Returned (Some (ImageRGBA \<lparr>Pix = [17, 34, 51, 255], Stride = 4,
      Rect_i = \<lparr>MinX = 0, MinY = 0, MaxX = 1, MaxY = 1\<rparr>\<rparr>)) None"
  by code_simp

lemma maskFile3_Decode:
  "Decode noZlib maskFile3 = Returned None (Some (FormatError ''bad block magic''))"
  by code_simp

lemma maskBlock3_step:
  "rest_of readBlockHeader (decoderAt 3 maskBlock3)
     = Some [8, 0, 0, 0, 8, 0, 0, 0, 1, 0, 0, 0, 1, 2, 3, 4, 5, 6, 7, 8, 126, 66, 75, 0]"
  "rest_of (decodeLayers_step noZlib zeroLstate) (decoderAt 3 maskBlock3)
     = Some [5, 6, 7, 8, 126, 66, 75, 0]"
  by code_simp+

lemma palFileA_Decode:
  "Decode noZlib palFileA = Returned (Some (ImagePaletted \<lparr>Pix = [0, 0], Stride = 2,
      Rect_i = \<lparr>MinX = 0, MinY = 0, MaxX = 2, MaxY = 1\<rparr>\<rparr>
      [RGBA 0 0 0 255, RGBA 255 255 255 255])) None"
  by code_simp

lemma palFileB_Decode:
  "Decode noZlib palFileB = Returned (Some (ImagePaletted \<lparr>Pix = [1, 1], Stride = 2,
      Rect_i = \<lparr>MinX = 0, MinY = 0, MaxX = 2, MaxY = 1\<rparr>\<rparr>
      [RGBA 0 0 0 255, RGBA 255 255 255 255])) None"
  by code_simp

lemma rle_next_item:
  "result_of (decompress noZlib 1 2) (rleDecoder [130, 7, 130, 8]) = Inr ()"
  "rleExpand (take 1 [130, 7, 130, 8]) = None"
  "rleExpand (take 2 [130, 7, 130, 8]) = Some [7, 7]"
  by code_simp+


lemma padFileA_Decode:
  "Decode noZlib padFileA = Returned (Some (ImagePaletted
      \<lparr>Pix = [0, 0, 0, 0, 5, 0, 16, 0, 0, 0, 0, 0, 0, 0, 0, 0, 13, 14, 15, 0], Stride = 20,
       Rect_i = \<lparr>MinX = 0, MinY = 0, MaxX = 20, MaxY = 1\<rparr>\<rparr>
      [RGBA 3 2 1 255, RGBA 6 5 4 255, RGBA 9 8 7 255, RGBA 12 11 10 255,
       RGBA 15 14 13 255])) None"
  by code_simp

lemma padFileB_Decode:
  "Decode noZlib padFileB = Returned (Some (ImagePaletted
      \<lparr>Pix = [0, 0, 0, 0, 5, 0, 16, 0, 0, 0, 0, 0, 0, 0, 0, 0, 13, 14, 15, 77], Stride = 20,
       Rect_i = \<lparr>MinX = 0, MinY = 0, MaxX = 20, MaxY = 1\<rparr>\<rparr>
      [RGBA 3 2 1 255, RGBA 6 5 4 255, RGBA 9 8 7 255, RGBA 12 11 10 255,
       RGBA 15 14 13 255])) None"
  by code_simp

lemma padFileB_padFileA: "padFileB = padFileA[125 := 77]"
  by code_simp

lemma cfgFile_DecodeConfig:
  "DecodeConfig cfgFile = Returned \<lparr>ColorModel = RGBAModel, Width = 5, Height = 7\<rparr> None"
  by code_simp

lemma cfgFile_Decode:
  "Decode noZlib cfgFile = Returned (Some (ImagePaletted \<lparr>Pix = [1, 1], Stride = 2,
      Rect_i = \<lparr>MinX = 0, MinY = 0, MaxX = 2, MaxY = 1\<rparr>\<rparr>
      [RGBA 0 0 0 255, RGBA 255 255 255 255])) None"
  by code_simp

lemma cfgFile_drained:
  "drainedByHeader cfgFile = Some 291"
  "rest_of readHeader (zeroDecoder cfgFile) = Some (drop 88 cfgFile)"
  by code_simp+

lemma rgb48File_Decode:
  "Decode noZlib rgb48File = Returned (Some (ImageRGBA64
      \<lparr>Pix = [18, 17, 34, 33, 50, 49, 255, 255], Stride = 8,
       Rect_i = \<lparr>MinX = 0, MinY = 0, MaxX = 1, MaxY = 1\<rparr>\<rparr>)) None"
  by code_simp

lemma rgbFiles_rgbOnly: "rgbOnly noZlib rgbFile" "rgbOnly noZlib rgb48File"
  by code_simp+
subsection \<open>What the header leaves in the buffered reader, and the kind of the image\<close>

lemma readFullAhead_buffered: "n \<le> a \<Longrightarrow> a \<le> len \<Longrightarrow> readFullAhead n a len = a - n"
  by (subst readFullAhead.simps) (auto simp: min_def)

lemma readFullAhead_first:
  "0 < n \<Longrightarrow> n < bufSize \<Longrightarrow> n \<le> len \<Longrightarrow> readFullAhead n 0 len = fill len - n"
  by (subst readFullAhead.simps) (auto simp: min_def fill_def bufSize_def)

lemma read_first:
  assumes "read n d = Inr (u, d')" and "ahead d = 0" and "inp d = r" and "0 < n"
    and "n < bufSize"
  shows "drained r d' = min bufSize (length r) \<and> ahead d' \<le> length (inp d')
         \<and> length (inp d') \<le> length r"
proof -
  from read_effect [OF assms(1)] have n: "n \<le> length r" and i: "inp d' = drop n r"
    and a: "ahead d' = readFullAhead n 0 (length r)"
    using assms(2,3) by auto
  from readFullAhead_first [OF assms(4,5) n] a have "ahead d' = fill (length r) - n" by simp
  with n i assms(5) show ?thesis by (auto simp: drained_def fill_def min_def)
qed

lemma read_next:
  assumes "read n d = Inr (u, d')" and "length (inp d) \<le> length r"
    and "ahead d \<le> length (inp d)" and "drained r d = min bufSize (length r)"
    and "length r - length (inp d) + n \<le> bufSize"
  shows "drained r d' = min bufSize (length r) \<and> ahead d' \<le> length (inp d')
         \<and> length (inp d') \<le> length r"
proof -
  from read_effect [OF assms(1)] have n: "n \<le> length (inp d)" and i: "inp d' = drop n (inp d)"
    and a: "ahead d' = readFullAhead n (ahead d) (length (inp d))"
    by auto
  have na: "n \<le> ahead d" using assms(2,4,5) n by (auto simp: drained_def min_def split: if_splits)
  from readFullAhead_buffered [OF na assms(3)] a have "ahead d' = ahead d - n" by simp
  with n i na assms(2,3,4) show ?thesis by (auto simp: drained_def)
qed

lemma readBlockHeader_read:
  assumes "readBlockHeader d = Inr (bh, d')"
  shows "\<exists>u. read (headerLen (versionMajor d)) d = Inr (u, d')"
  using assms
  by (auto simp: readBlockHeader_def andThen_Inr Let_def headerLen_def split: if_splits)

lemma newDecoder_drained:
  assumes "newDecoder r = Inr d"
  shows "drained r d = min bufSize (length r)
         \<and> colorModelFor (grayscale d) (bitDepth d) = Inr (colorModel_d d)"
proof -
  from assms obtain u where rh: "readHeader (zeroDecoder r) = Inr (u, d)"
    by (auto simp: newDecoder_def split: sum.splits)
  let ?z = "zeroDecoder r"
  from rh obtain u1 d1 where r1: "read 36 ?z = Inr (u1, d1)"
    and rest1: "(andThen (gets tmpBuf) (\<lambda>tb.
       if subslice tb 0 32 \<noteq> fileMagic then d_error (FormatError ''not a PSP file'')
       else
     andThen (modify (\<lambda>d. d\<lparr>versionMajor := decodeUint16 (subslice tb 32 34),
                               versionMinor := decodeUint16 (subslice tb 34 36)\<rparr>)) (\<lambda>_.
       if decodeUint16 (subslice tb 32 34) < 3
       then d_error (UnsupportedError ''only major versions >= 3 are supported'' [])
       else
     andThen readBlockHeader (\<lambda>bh.
       if bh_id bh \<noteq> imageBlock
       then d_error (FormatError ''missing general image attributes block'')
       else if dataLen bh < 38 \<or> dataLen bh > 64
       then d_error (FormatError ''invalid length for general image attributes block'')
       else
     andThen (read (unat (dataLen bh))) (\<lambda>_.
     andThen (gets (\<lambda>d. if versionMajor d \<ge> 4 then drop 4 (tmpBuf d) else tmpBuf d)) (\<lambda>buf.
     andThen (modify (setAttributes buf)) (\<lambda>_.
     andThen (gets comp_d) (\<lambda>c.
       if c \<noteq> compressionNone \<and> c \<noteq> compressionRLE \<and> c \<noteq> compressionLZ77
       then d_error (UnsupportedError ''unsupported compression (%04x)'' [unat c])
       else
     andThen (gets (\<lambda>d. colorModelFor (grayscale d) (bitDepth d))) (\<lambda>cm.
       case cm of
         Inl e \<Rightarrow> d_error e
       | Inr m \<Rightarrow> modify (\<lambda>d. d\<lparr>colorModel_d := m\<rparr>)))))))))) d1 = Inr (u, d)"
    unfolding readHeader_def by (auto simp: andThen_Inr)
  from read_effect [OF r1] have i1: "inp d1 = drop 36 r" and l1: "36 \<le> length r"
    and t1: "tmpBuf d1 = take 36 r @ drop 36 (tmpBuf ?z)" by auto
  let ?v = "decodeUint16 (subslice r 32 34)"
  let ?d2 = "d1\<lparr>versionMajor := ?v, versionMinor := decodeUint16 (subslice r 34 36)\<rparr>"
  have sl: "subslice (tmpBuf d1) 32 34 = subslice r 32 34" "subslice (tmpBuf d1) 34 36 = subslice r 34 36"
    using l1 by (simp_all add: t1 subslice_take_append)
  from rest1 obtain bh d3 u4 d4 where v3: "\<not> ?v < 3"
    and h: "readBlockHeader ?d2 = Inr (bh, d3)"
    and L: "\<not> (dataLen bh < 38 \<or> dataLen bh > 64)"
    and r4: "read (unat (dataLen bh)) d3 = Inr (u4, d4)"
    and rest4: "(andThen (gets (\<lambda>d. if versionMajor d \<ge> 4 then drop 4 (tmpBuf d) else tmpBuf d)) (\<lambda>buf.
     andThen (modify (setAttributes buf)) (\<lambda>_.
     andThen (gets comp_d) (\<lambda>c.
       if c \<noteq> compressionNone \<and> c \<noteq> compressionRLE \<and> c \<noteq> compressionLZ77
       then d_error (UnsupportedError ''unsupported compression (%04x)'' [unat c])
       else
     andThen (gets (\<lambda>d. colorModelFor (grayscale d) (bitDepth d))) (\<lambda>cm.
       case cm of
         Inl e \<Rightarrow> d_error e
       | Inr m \<Rightarrow> modify (\<lambda>d. d\<lparr>colorModel_d := m\<rparr>)))))) d4 = Inr (u, d)"
    by (auto simp: andThen_Inr sl split: if_splits)

  let ?hl = "headerLen (versionMajor ?d2)"
  have hl: "?hl \<le> 14" by (simp add: headerLen_def)
  from L have L64: "unat (dataLen bh) \<le> 64" by (simp add: not_less word_le_nat_alt)
  from read_first [OF r1, of r] have p1: "drained r d1 = min bufSize (length r)"
    "ahead d1 \<le> length (inp d1)" "length (inp d1) \<le> length r"
    by (simp_all add: zeroDecoder_def bufSize_def)
  from read_effect [OF r1] have i1: "inp d1 = drop 36 r" and l1: "36 \<le> length r" by auto
  have p2: "drained r ?d2 = min bufSize (length r)" "ahead ?d2 \<le> length (inp ?d2)"
    "length (inp ?d2) \<le> length r" and c2: "length r - length (inp ?d2) = 36"
    using p1 i1 l1 by (simp_all add: drained_def)
  from readBlockHeader_read [OF h] obtain u3 where r3: "read ?hl ?d2 = Inr (u3, d3)" by blast
  from read_next [OF r3 p2(3) p2(2) p2(1)] c2 hl
  have p3: "drained r d3 = min bufSize (length r)" "ahead d3 \<le> length (inp d3)"
    "length (inp d3) \<le> length r"
    by (simp_all add: bufSize_def)
  from read_effect [OF r3] have "inp d3 = drop ?hl (inp ?d2)" "?hl \<le> length (inp ?d2)" by auto
  with c2 p2(3) have c3: "length r - length (inp d3) = 36 + ?hl" by simp
  from read_next [OF r4 p3(3) p3(2) p3(1)] c3 hl L64
  have p4: "drained r d4 = min bufSize (length r)" by (simp add: bufSize_def)
  from rest4 have "inp d = inp d4" "ahead d = ahead d4"
    and cm: "colorModelFor (grayscale d) (bitDepth d) = Inr (colorModel_d d)"
    by (auto simp: andThen_Inr setAttributes_def split: if_splits sum.splits)
  with p4 show ?thesis by (simp add: drained_def)
qed
text \<open>
  The image variables of \<open>decodeLayers\<close> fit the palette and the depth of the decoder:
  \<open>img\<close> is the image that the chain of \<open>if d.palette != nil ... else if d.bitDepth == ...\<close>
  made, and a paletted image has the palette of the decoder.
\<close>

definition imgInv :: "rgba list option \<Rightarrow> 16 word \<Rightarrow> lstate \<Rightarrow> bool" where
  "imgInv pal depth ls \<longleftrightarrow>
     (img ls = RefRGBA \<longrightarrow> pal = None \<and> (depth = 24 \<or> depth = 32))
     \<and> (img ls = RefRGBA64 \<longrightarrow> pal = None \<and> (depth = 48 \<or> depth = 64))
     \<and> (img ls = RefGray16 \<longrightarrow> pal = None \<and> depth = 16)
     \<and> (img ls = RefPaletted \<longrightarrow> (\<forall>p. imgPaletted ls = Some p \<longrightarrow> pal = Some (pPalette p)))"

definition imgGoal :: "rgba list option \<Rightarrow> 16 word \<Rightarrow> image option \<Rightarrow> bool" where
  "imgGoal pal depth i \<longleftrightarrow>
     (case i of
        None \<Rightarrow> True
      | Some (ImageRGBA p) \<Rightarrow> pal = None \<and> (depth = 24 \<or> depth = 32)
      | Some (ImageRGBA64 p) \<Rightarrow> pal = None \<and> (depth = 48 \<or> depth = 64)
      | Some (ImageGray16 p) \<Rightarrow> pal = None \<and> depth = 16
      | Some (ImagePaletted p pl) \<Rightarrow> pal = Some pl)"

lemma sameFields_palette:
  "sameFields d d' \<Longrightarrow> palette d' = palette d \<and> bitDepth d' = bitDepth d"
proof -
  assume "sameFields d d'"
  then have e: "fields d' = fields d" by (simp add: sameFields_def)
  from arg_cong [OF e, of palette] arg_cong [OF e, of bitDepth]
  show ?thesis by (simp add: fields_def)
qed

lemma sameAttributes_bitDepth:
  "sameAttributes d d' \<Longrightarrow> bitDepth d' = bitDepth d"
proof -
  assume "sameAttributes d d'"
  then have e: "fields (d'\<lparr>creator_d := zeroCreator, palette := None\<rparr>)
       = fields (d\<lparr>creator_d := zeroCreator, palette := None\<rparr>)"
    by (simp add: sameAttributes_def)
  from arg_cong [OF e, of bitDepth] show ?thesis by (simp add: fields_def)
qed

lemma imgInv_zero [simp]: "imgInv pal depth zeroLstate"
  by (simp add: imgInv_def zeroLstate_def)

lemma imgInv_layer [simp]: "imgInv pal depth (ls\<lparr>layer_l := l\<rparr>) = imgInv pal depth ls"
  by (simp add: imgInv_def)

lemma imgInv_channel [simp]: "imgInv pal depth (ls\<lparr>channel := c\<rparr>) = imgInv pal depth ls"
  by (simp add: imgInv_def)

lemma allocImage_inv:
  assumes "allocImage ls d = Inr (ls', d')" and "imgInv (palette d) (bitDepth d) ls"
  shows "imgInv (palette d) (bitDepth d) ls'"
proof (cases "palette d")
  case (Some pl)
  with assms(1) show ?thesis
    by (auto simp: allocImage_def Let_def andThen_Inr lift_def imgInv_def split: sum.splits)
next
  case None
  with assms show ?thesis
    by (auto simp: allocImage_def Let_def andThen_Inr lift_def imgInv_def
             split: sum.splits if_splits)
qed

lemma scatter_inv:
  assumes "scatter ct lb ls d = Inr (ls', d')" and "imgInv pal depth ls"
  shows "imgInv pal depth ls'"
proof -
  from assms(1) have "img ls' = img ls
      \<and> (\<forall>p'. imgPaletted ls' = Some p'
            \<longrightarrow> (\<exists>p. imgPaletted ls = Some p \<and> pPalette p' = pPalette p))"
    by (auto simp: scatter_def andThen_Inr lift_def
             split: option.splits sum.splits if_splits)
  with assms(2) show ?thesis by (auto simp: imgInv_def)
qed

lemma imageOf_goal: "imgInv pal depth ls \<Longrightarrow> imgGoal pal depth (imageOf ls d)"
  by (cases "img ls")
     (auto simp: imgInv_def imgGoal_def imageOf_def split: option.splits image.splits)

lemma countChannel_inv:
  assumes "countChannel ls d = Inr (t, d')" and "imgInv pal depth ls"
  shows "case t of Continue ls' \<Rightarrow> imgInv pal depth ls' | Return (im, l) \<Rightarrow> imgGoal pal depth im"
proof -
  have "imgGoal pal depth (imageOf (ls\<lparr>channel := channel ls + 1\<rparr>) d)"
    using assms(2) by (intro imageOf_goal) simp
  with assms show ?thesis
    by (auto simp: countChannel_def Let_def andThen_Inr split: if_splits)
qed

lemma layerStep_inv:
  assumes "layerStep ls d = Inr (t, d')" and "imgInv (palette d) (bitDepth d) ls"
  shows "case t of Continue ls' \<Rightarrow> imgInv (palette d) (bitDepth d) ls'
         | Return (im, l) \<Rightarrow> imgGoal (palette d) (bitDepth d) im"
proof -
  from assms(1) obtain l d1 where r: "readLayer (layer_l ls) d = Inr (l, d1)"
    and s: "(if channelCount l = 0 then ret (Continue (ls\<lparr>layer_l := l\<rparr>))
             else andThen (allocImage (ls\<lparr>layer_l := l\<rparr>)) (\<lambda>ls'. ret (Continue ls'))) d1
            = Inr (t, d')"
    by (auto simp: layerStep_def andThen_Inr)
  from sameFields_palette [OF keepsD [OF same_readLayer r]]
  have p: "palette d1 = palette d" "bitDepth d1 = bitDepth d" by simp_all
  show ?thesis
  proof (cases "channelCount l = 0")
    case True
    with s assms(2) show ?thesis by auto
  next
    case False
    with s obtain ls' where a: "allocImage (ls\<lparr>layer_l := l\<rparr>) d1 = Inr (ls', d')"
      and t: "t = Continue ls'"
      by (auto simp: andThen_Inr)
    from allocImage_inv [OF a] assms(2) p t show ?thesis by simp
  qed
qed

lemma channelStep_inv:
  assumes "channelStep zl bh ls d = Inr (t, d')" and "imgInv pal depth ls"
  shows "case t of Continue ls' \<Rightarrow> imgInv pal depth ls'
         | Return (im, l) \<Rightarrow> imgGoal pal depth im"
proof -
  from assms(1) obtain cl ul bt ct d1 where c: "readChannelInfo d = Inr ((cl, ul, bt, ct), d1)"
    and s: "(if bt \<noteq> dibImage then
         andThen (skip (uint (dataLen bh - 4 * 3 - 2 * 2))) (\<lambda>_. countChannel ls)
       else if layerBytes ls < 0 then runtimePanic
       else
         andThen (gets (\<lambda>d. length (tmpBuf d))) (\<lambda>cap.
         andThen (if cap < nat (layerBytes ls) then modify (makeTmpBuf (nat (layerBytes ls)))
                  else ret ()) (\<lambda>_.
         andThen (decompress zl cl (nat (layerBytes ls))) (\<lambda>_.
         andThen (scatter ct (nat (layerBytes ls)) ls) countChannel)))) d1 = Inr (t, d')"
    by (auto simp: channelStep_def andThen_Inr)
  show ?thesis
  proof (cases "bt \<noteq> dibImage")
    case True
    with s obtain d2 where "countChannel ls d2 = Inr (t, d')" by (auto simp: andThen_Inr)
    from countChannel_inv [OF this assms(2)] show ?thesis .
  next
    case False
    with s obtain ls2 d3 d4 where sc: "scatter ct (nat (layerBytes ls)) ls d3 = Inr (ls2, d4)"
      and cc: "countChannel ls2 d4 = Inr (t, d')"
      by (auto simp: andThen_Inr split: if_splits)
    from countChannel_inv [OF cc scatter_inv [OF sc assms(2)]] show ?thesis .
  qed
qed

lemma decodeLayers_step_inv:
  assumes "decodeLayers_step zl ls d = Inr (t, d')" and "imgInv (palette d) (bitDepth d) ls"
  shows "case t of Continue ls' \<Rightarrow> imgInv (palette d) (bitDepth d) ls'
         | Return (im, l) \<Rightarrow> imgGoal (palette d) (bitDepth d) im"
proof -
  from assms(1) obtain bh d1 where h: "readBlockHeader d = Inr (bh, d1)"
    and s: "(if bh_id bh = layerBlock then layerStep ls
       else if bh_id bh = channelBlock then channelStep zl bh ls
       else if bh_id bh = 33 then
         andThen (skip (uint (dataLen bh))) (\<lambda>_.
         andThen readUint32 (\<lambda>n.
         andThen (skip (uint n - 4)) (\<lambda>_. ret (Continue ls))))
       else andThen (skip (uint (dataLen bh))) (\<lambda>_. ret (Continue ls))) d1 = Inr (t, d')"
    by (auto simp: decodeLayers_step_def andThen_Inr)
  from sameFields_palette [OF keepsD [OF same_readBlockHeader h]]
  have p: "palette d1 = palette d" "bitDepth d1 = bitDepth d" by simp_all
  consider (l) "bh_id bh = layerBlock" | (c) "bh_id bh \<noteq> layerBlock" "bh_id bh = channelBlock"
    | (o) "bh_id bh \<noteq> layerBlock" "bh_id bh \<noteq> channelBlock" by blast
  then show ?thesis
  proof cases
    case l
    with s have ls: "layerStep ls d1 = Inr (t, d')" by simp
    have "imgInv (palette d1) (bitDepth d1) ls" using assms(2) p by simp
    from layerStep_inv [OF ls this] p show ?thesis by (cases t) auto
  next
    case c
    with s have "channelStep zl bh ls d1 = Inr (t, d')" by simp
    from channelStep_inv [OF this assms(2)] show ?thesis .
  next
    case o
    with s have "t = Continue ls" by (auto simp: andThen_Inr split: if_splits)
    with assms(2) show ?thesis by simp
  qed
qed

lemma decodeLayers_loop_inv:
  "decodeLayers_loop zl ls d = Inr ((im, l), d') \<Longrightarrow> imgInv (palette d) (bitDepth d) ls
     \<Longrightarrow> imgGoal (palette d) (bitDepth d) im"
proof (induction zl ls d rule: decodeLayers_loop.induct)
  case (1 zl ls d)
  from "1.prems"(1) obtain t d1 where s: "decodeLayers_step zl ls d = Inr (t, d1)"
    by (subst (asm) decodeLayers_loop.simps) (auto split: sum.splits)
  from sameFields_palette [OF keepsD [OF same_decodeLayers_step s]]
  have p: "palette d1 = palette d" "bitDepth d1 = bitDepth d" by simp_all
  note i = decodeLayers_step_inv [OF s "1.prems"(2)]
  show ?case
  proof (cases t)
    case (Return r)
    with "1.prems"(1) s have "r = (im, l)" by (subst (asm) decodeLayers_loop.simps) simp
    with i Return show ?thesis by simp
  next
    case (Continue ls')
    with "1.prems"(1) s have r: "decodeLayers_loop zl ls' d1 = Inr ((im, l), d')"
      by (subst (asm) decodeLayers_loop.simps) simp
    from i Continue have "imgInv (palette d1) (bitDepth d1) ls'" by (simp add: p)
    from "1.IH" [OF s refl Continue r this] p show ?thesis by simp
  qed
qed

lemma decode_step_goal:
  assumes "decode_step zl d = Inr (Return i, d')"
  shows "imgGoal (palette d') (bitDepth d) i"
proof -
  from assms obtain bh d1 l where h: "readBlockHeader d = Inr (bh, d1)"
    and dl: "decodeLayers zl d1 = Inr ((i, l), d')"
    by (auto simp: decode_step_def andThen_Inr split: if_splits)
  from sameFields_palette [OF keepsD [OF same_readBlockHeader h]]
  have p: "palette d1 = palette d" "bitDepth d1 = bitDepth d" by simp_all
  from sameFields_palette [OF keepsD [OF same_decodeLayers dl]]
  have p': "palette d' = palette d1" by simp
  from decodeLayers_loop_inv [OF dl [unfolded decodeLayers_def]] p p'
  show ?thesis by simp
qed

lemma decode_goal:
  "decode zl d = Inr (i, d') \<Longrightarrow> imgGoal (palette d') (bitDepth d) i"
proof (induction zl d rule: decode.induct)
  case (1 zl d)
  from "1.prems" obtain t d1 where s: "decode_step zl d = Inr (t, d1)"
    by (subst (asm) decode.simps) (auto split: sum.splits)
  show ?case
  proof (cases t)
    case (Return r)
    with "1.prems" s have "r = i" "d1 = d'" by (subst (asm) decode.simps, simp)+
    with decode_step_goal [of zl d r d1] s Return show ?thesis by simp
  next
    case (Continue u)
    with "1.prems" s have r: "decode zl d1 = Inr (i, d')" by (subst (asm) decode.simps) simp
    from sameAttributes_bitDepth [OF keepsD [OF attr_decode_step s]]
      "1.IH" [OF s refl Continue r]
    show ?thesis by simp
  qed
qed
subsection \<open>The alpha samples\<close>

lemma mod4_next:
  assumes "(k :: nat) mod 4 = 3" and "i mod 4 = 3" and "k < i + 4" and "k \<noteq> i"
  shows "k < i"
proof (rule ccontr)
  assume "\<not> k < i"
  with assms(4) have ik: "i < k" by simp
  then have le: "i \<le> k" by simp
  from assms(1,2) have "k mod 4 = i mod 4" by simp
  with mod_eq_dvd_iff_nat [OF le] have "4 dvd k - i" by simp
  then have "4 \<le> k - i" using ik by (auto dest: dvd_imp_le)
  with assms(3) show False by simp
qed

lemma opaque8_fillAlpha':
  "i mod 4 = 3 \<Longrightarrow> (\<forall>k < length pix. k mod 4 = 3 \<and> k < i \<longrightarrow> pix ! k = 255)
     \<Longrightarrow> opaque8 (fillAlpha i pix)"
proof (induction i pix rule: fillAlpha.induct)
  case (1 i pix)
  show ?case
  proof (cases "i < length pix")
    case False
    with "1.prems"(2) show ?thesis by (subst fillAlpha.simps) (auto simp: opaque8_def)
  next
    case True
    from "1.prems"(1) have m: "(i + 4) mod 4 = 3" by simp
    have "\<forall>k < length (pix[i := 255]). k mod 4 = 3 \<and> k < i + 4 \<longrightarrow> pix[i := 255] ! k = 255"
    proof (intro allI impI)
      fix k assume k: "k < length (pix[i := 255])" and a: "k mod 4 = 3 \<and> k < i + 4"
      show "pix[i := 255] ! k = 255"
      proof (cases "k = i")
        case True
        with k show ?thesis by simp
      next
        case False
        with a "1.prems"(1) have "k < i" by (auto intro: mod4_next)
        with "1.prems"(2) a k False show ?thesis by simp
      qed
    qed
    from "1.IH" [OF True m this] True show ?thesis by (subst fillAlpha.simps) simp
  qed
qed

lemma opaque8_fillAlpha: "opaque8 (fillAlpha 3 pix)"
proof (rule opaque8_fillAlpha')
  show "(3 :: nat) mod 4 = 3" by simp
  show "\<forall>k < length pix. k mod 4 = 3 \<and> k < 3 \<longrightarrow> pix ! k = 255"
  proof (intro allI impI)
    fix k :: nat assume a: "k mod 4 = 3 \<and> k < 3"
    then have k3: "k mod 4 = 3" "k < 3" by blast+
    from k3(2) have "k mod 4 = k" by simp
    with k3 have False by linarith
    then show "pix ! k = 255" ..
  qed
qed

lemma mod8_next:
  assumes "(k :: nat) mod 8 = 6 \<or> k mod 8 = 7" and "i mod 8 = 6" and "k < i + 8"
    and "k \<noteq> i" and "k \<noteq> i + 1"
  shows "k < i"
proof (rule ccontr)
  assume "\<not> k < i"
  with assms(4,5) have ik: "i + 1 < k" by simp
  from assms(1) show False
  proof
    assume "k mod 8 = 6"
    with assms(2) have "k mod 8 = i mod 8" by simp
    with mod_eq_dvd_iff_nat [of i k 8] ik have "8 dvd k - i" by simp
    then have "8 \<le> k - i" using ik by (auto dest: dvd_imp_le)
    with assms(3) show False by simp
  next
    assume k7: "k mod 8 = 7"
    from assms(2) have "(i + 1) mod 8 = 7" by (simp add: mod_Suc)
    with k7 have "k mod 8 = (i + 1) mod 8" by simp
    with mod_eq_dvd_iff_nat [of "i + 1" k 8] ik have "8 dvd k - (i + 1)" by simp
    then have "8 \<le> k - (i + 1)" using ik by (auto dest: dvd_imp_le)
    with assms(3) show False by simp
  qed
qed

lemma opaque16_fillAlpha64':
  "fillAlpha64 i pix = Inr r \<Longrightarrow> i mod 8 = 6
     \<Longrightarrow> (\<forall>k < length pix. (k mod 8 = 6 \<or> k mod 8 = 7) \<and> k < i \<longrightarrow> pix ! k = 255)
     \<Longrightarrow> opaque16 r"
proof (induction i pix rule: fillAlpha64.induct)
  case (1 i pix)
  show ?case
  proof (cases "i < length pix")
    case False
    with "1.prems"(1) have "r = pix" by (subst (asm) fillAlpha64.simps) simp
    with False "1.prems"(3) show ?thesis by (auto simp: opaque16_def)
  next
    case True
    let ?p = "pix[i := 255, i + 1 := 255]"
    from True "1.prems"(1) have i1: "i + 1 < length pix"
      by (subst (asm) fillAlpha64.simps) (auto split: if_splits)
    from True i1 "1.prems"(1) have r: "fillAlpha64 (i + 8) ?p = Inr r"
      by (subst (asm) fillAlpha64.simps) simp
    from "1.prems"(2) have m: "(i + 8) mod 8 = 6" by simp
    have "\<forall>k < length ?p. (k mod 8 = 6 \<or> k mod 8 = 7) \<and> k < i + 8 \<longrightarrow> ?p ! k = 255"
    proof (intro allI impI)
      fix k assume k: "k < length ?p" and a: "(k mod 8 = 6 \<or> k mod 8 = 7) \<and> k < i + 8"
      show "?p ! k = 255"
      proof (cases "k = i \<or> k = i + 1")
        case True
        with k show ?thesis by (auto simp: nth_list_update)
      next
        case False
        with a "1.prems"(2) have "k < i" by (auto intro: mod8_next)
        with "1.prems"(3) a k False show ?thesis by (simp add: nth_list_update)
      qed
    qed
    from "1.IH" [OF True i1 r m this] show ?thesis .
  qed
qed

lemma opaque16_fillAlpha64: "fillAlpha64 6 pix = Inr r \<Longrightarrow> opaque16 r"
proof (erule opaque16_fillAlpha64')
  show "(6 :: nat) mod 8 = 6" by simp
  show "\<forall>k < length pix. (k mod 8 = 6 \<or> k mod 8 = 7) \<and> k < 6 \<longrightarrow> pix ! k = 255"
  proof (intro allI impI)
    fix k :: nat assume a: "(k mod 8 = 6 \<or> k mod 8 = 7) \<and> k < 6"
    then have k6: "k mod 8 = 6 \<or> k mod 8 = 7" "k < 6" by blast+
    from k6(2) have "k mod 8 = k" by simp
    with k6 have False by linarith
    then show "pix ! k = 255" ..
  qed
qed

lemma opaque8_update:
  assumes "opaque8 pix" and "n mod 4 \<noteq> 3"
  shows "opaque8 (pix[n := v])"
  unfolding opaque8_def
proof (intro allI impI)
  fix i assume i: "i < length (pix[n := v])" and m: "i mod 4 = 3"
  from m assms(2) have "i \<noteq> n" by auto
  with assms(1) i m show "pix[n := v] ! i = 255" by (simp add: opaque8_def)
qed

lemma opaque16_update:
  assumes "opaque16 pix" and "n mod 8 \<noteq> 6" and "n mod 8 \<noteq> 7"
  shows "opaque16 (pix[n := v])"
  unfolding opaque16_def
proof (intro allI impI)
  fix i assume i: "i < length (pix[n := v])" and m: "i mod 8 = 6 \<or> i mod 8 = 7"
  from m assms(2,3) have "i \<noteq> n" by auto
  with assms(1) i m show "pix[n := v] ! i = 255" by (auto simp: opaque16_def)
qed

lemma scatterRGBA_opaque:
  "scatterRGBA i pix buf = Inr r \<Longrightarrow> i mod 4 \<noteq> 3 \<Longrightarrow> opaque8 pix \<Longrightarrow> opaque8 r"
proof (induction i pix buf rule: scatterRGBA.induct)
  case (1 i pix buf)
  show ?case
  proof (cases "i < int (length pix)")
    case False
    with "1.prems"(1) have "r = pix" by (subst (asm) scatterRGBA.simps) simp
    with "1.prems"(3) show ?thesis by simp
  next
    case True
    from True "1.prems"(1) have ok: "\<not> (i < 0 \<or> \<not> nat (i div 4) < length buf)"
      by (subst (asm) scatterRGBA.simps) (auto split: if_splits)
    from True ok "1.prems"(1)
    have r: "scatterRGBA (i + 4) (pix[nat i := buf ! nat (i div 4)]) buf = Inr r"
      by (subst (asm) scatterRGBA.simps) simp
    from ok have i0: "0 \<le> i" by simp
    from "1.prems"(2) have m: "(i + 4) mod 4 \<noteq> 3" by simp
    from i0 have "nat i mod 4 = nat (i mod 4)" by (simp add: nat_mod_distrib)
    moreover from "1.prems"(2) have "nat (i mod 4) \<noteq> 3" by arith
    ultimately have "nat i mod 4 \<noteq> 3" by simp
    from "1.IH" [OF True ok r m opaque8_update [OF "1.prems"(3) this]] show ?thesis .
  qed
qed

lemma scatterRGBA64_opaque:
  "scatterRGBA64 i pix buf = Inr r \<Longrightarrow> i mod 8 = 0 \<or> i mod 8 = 2 \<or> i mod 8 = 4
     \<Longrightarrow> opaque16 pix \<Longrightarrow> opaque16 r"
proof (induction i pix buf rule: scatterRGBA64.induct)
  case (1 i pix buf)
  show ?case
  proof (cases "i < int (length pix)")
    case False
    with "1.prems"(1) have "r = pix" by (subst (asm) scatterRGBA64.simps) simp
    with "1.prems"(3) show ?thesis by simp
  next
    case True
    let ?p = "pix[nat i := buf ! nat (2 * (i div 8) + 1), nat i + 1 := buf ! nat (2 * (i div 8))]"
    from True "1.prems"(1)
    have ok: "\<not> (i < 0 \<or> \<not> nat (2 * (i div 8) + 1) < length buf \<or> \<not> nat i + 1 < length pix)"
      by (subst (asm) scatterRGBA64.simps) (auto split: if_splits)
    from True ok "1.prems"(1) have r: "scatterRGBA64 (i + 8) ?p buf = Inr r"
      by (subst (asm) scatterRGBA64.simps) simp
    from ok have i0: "0 \<le> i" by simp
    from "1.prems"(2) have m: "(i + 8) mod 8 = 0 \<or> (i + 8) mod 8 = 2 \<or> (i + 8) mod 8 = 4"
      by simp
    from i0 have n: "nat i mod 8 = nat (i mod 8)" by (simp add: nat_mod_distrib)
    from "1.prems"(2) have "nat (i mod 8) = 0 \<or> nat (i mod 8) = 2 \<or> nat (i mod 8) = 4" by arith
    with n have n8: "nat i mod 8 = 0 \<or> nat i mod 8 = 2 \<or> nat i mod 8 = 4" by simp
    then have a: "nat i mod 8 \<noteq> 6" "nat i mod 8 \<noteq> 7" by auto
    from n8 have "(nat i + 1) mod 8 = 1 \<or> (nat i + 1) mod 8 = 3 \<or> (nat i + 1) mod 8 = 5"
      by (auto simp: mod_Suc)
    then have b: "(nat i + 1) mod 8 \<noteq> 6" "(nat i + 1) mod 8 \<noteq> 7" by auto
    have "opaque16 ?p"
      by (intro opaque16_update "1.prems"(3) a b)
    from "1.IH" [OF True ok r m this] show ?thesis .
  qed
qed

text \<open>The alpha samples of the two images with alpha are at their maximum.\<close>

definition opaqueInv :: "lstate \<Rightarrow> bool" where
  "opaqueInv ls \<longleftrightarrow>
     (\<forall>p. imgRGBA ls = Some p \<longrightarrow> opaque8 (Pix p))
     \<and> (\<forall>p. imgRGBA64 ls = Some p \<longrightarrow> opaque16 (Pix p))"

definition opaqueImage :: "image option \<Rightarrow> bool" where
  "opaqueImage i \<longleftrightarrow>
     (case i of
        None \<Rightarrow> True
      | Some (ImageRGBA p) \<Rightarrow> opaque8 (Pix p)
      | Some (ImageRGBA64 p) \<Rightarrow> opaque16 (Pix p)
      | Some (ImageGray16 p) \<Rightarrow> True
      | Some (ImagePaletted p pl) \<Rightarrow> True)"

lemma opaqueInv_zero [simp]: "opaqueInv zeroLstate"
  by (simp add: opaqueInv_def zeroLstate_def)

lemma opaqueInv_layer [simp]: "opaqueInv (ls\<lparr>layer_l := l\<rparr>) = opaqueInv ls"
  by (simp add: opaqueInv_def)

lemma opaqueInv_channel [simp]: "opaqueInv (ls\<lparr>channel := c\<rparr>) = opaqueInv ls"
  by (simp add: opaqueInv_def)

lemma allocImage_opaque:
  assumes "allocImage ls d = Inr (ls', d')" and "opaqueInv ls"
  shows "opaqueInv ls'"
proof (cases "palette d")
  case (Some pl)
  with assms show ?thesis
    by (auto simp: allocImage_def Let_def andThen_Inr lift_def opaqueInv_def split: sum.splits)
next
  case None
  with assms show ?thesis
    by (auto simp: allocImage_def Let_def andThen_Inr lift_def opaqueInv_def
                   opaque8_fillAlpha opaque16_fillAlpha64
             split: sum.splits if_splits)
qed

lemma scatter_opaque:
  assumes "scatter ct lb ls d = Inr (ls', d')" and "ct = 1 \<or> ct = 2 \<or> ct = 3"
    and "opaqueInv ls"
  shows "opaqueInv ls'"
proof -
  from assms(2) have u: "uint ct = 1 \<or> uint ct = 2 \<or> uint ct = 3" by auto
  then have m4: "(uint ct - 1) mod 4 \<noteq> 3" by auto
  from u have m8: "((uint ct - 1) * 2) mod 8 = 0 \<or> ((uint ct - 1) * 2) mod 8 = 2
      \<or> ((uint ct - 1) * 2) mod 8 = 4" by auto
  show ?thesis
  proof (cases "imgRGBA ls")
    case (Some p)
    with assms(1) obtain px where s: "scatterRGBA (uint ct - 1) (Pix p) (take lb (tmpBuf d)) = Inr px"
      and l: "ls' = ls\<lparr>imgRGBA := Some (p\<lparr>Pix := px\<rparr>)\<rparr>"
      by (auto simp: scatter_def andThen_Inr lift_def split: sum.splits)
    from assms(3) Some have "opaque8 (Pix p)" by (simp add: opaqueInv_def)
    from scatterRGBA_opaque [OF s m4 this] assms(3) l show ?thesis by (simp add: opaqueInv_def)
  next
    case None
    show ?thesis
    proof (cases "imgRGBA64 ls")
      case (Some p)
      with None assms(1) obtain px where
        s: "scatterRGBA64 ((uint ct - 1) * 2) (Pix p) (take lb (tmpBuf d)) = Inr px"
        and l: "ls' = ls\<lparr>imgRGBA64 := Some (p\<lparr>Pix := px\<rparr>)\<rparr>"
        by (auto simp: scatter_def andThen_Inr lift_def split: sum.splits)
      from assms(3) Some have "opaque16 (Pix p)" by (simp add: opaqueInv_def)
      from scatterRGBA64_opaque [OF s m8 this] assms(3) l show ?thesis
        by (simp add: opaqueInv_def)
    next
      case n64: None
      with None assms(1) have "imgRGBA ls' = None \<and> imgRGBA64 ls' = None"
        by (auto simp: scatter_def andThen_Inr lift_def
                 split: option.splits sum.splits if_splits)
      then show ?thesis by (simp add: opaqueInv_def)
    qed
  qed
qed

lemma imageOf_opaque: "opaqueInv ls \<Longrightarrow> opaqueImage (imageOf ls d)"
  by (cases "img ls")
     (auto simp: opaqueInv_def opaqueImage_def imageOf_def split: option.splits)

lemma countChannel_opaque:
  assumes "countChannel ls d = Inr (t, d')" and "opaqueInv ls"
  shows "case t of Continue ls' \<Rightarrow> opaqueInv ls' | Return (im, l) \<Rightarrow> opaqueImage im"
proof -
  have "opaqueImage (imageOf (ls\<lparr>channel := channel ls + 1\<rparr>) d)"
    using assms(2) by (intro imageOf_opaque) simp
  with assms show ?thesis
    by (auto simp: countChannel_def Let_def andThen_Inr split: if_splits)
qed

lemma layerStep_opaque:
  assumes "layerStep ls d = Inr (t, d')" and "opaqueInv ls"
  shows "case t of Continue ls' \<Rightarrow> opaqueInv ls' | Return (im, l) \<Rightarrow> opaqueImage im"
proof -
  from assms(1) obtain l d1 where r: "readLayer (layer_l ls) d = Inr (l, d1)"
    and s: "(if channelCount l = 0 then ret (Continue (ls\<lparr>layer_l := l\<rparr>))
             else andThen (allocImage (ls\<lparr>layer_l := l\<rparr>)) (\<lambda>ls'. ret (Continue ls'))) d1
            = Inr (t, d')"
    by (auto simp: layerStep_def andThen_Inr)
  show ?thesis
  proof (cases "channelCount l = 0")
    case True
    with s assms(2) show ?thesis by auto
  next
    case False
    with s obtain ls' where a: "allocImage (ls\<lparr>layer_l := l\<rparr>) d1 = Inr (ls', d')"
      and t: "t = Continue ls'"
      by (auto simp: andThen_Inr)
    from allocImage_opaque [OF a] assms(2) t show ?thesis by simp
  qed
qed

lemma channelStep_opaque:
  assumes "channelStep zl bh ls d = Inr (t, d')" and "opaqueInv ls"
    and "\<forall>cl ul bt ct d1. readChannelInfo d = Inr ((cl, ul, bt, ct), d1) \<longrightarrow> bt = dibImage
           \<longrightarrow> ct = 1 \<or> ct = 2 \<or> ct = 3"
  shows "case t of Continue ls' \<Rightarrow> opaqueInv ls' | Return (im, l) \<Rightarrow> opaqueImage im"
proof -
  from assms(1) obtain cl ul bt ct d1 where c: "readChannelInfo d = Inr ((cl, ul, bt, ct), d1)"
    and s: "(if bt \<noteq> dibImage then
         andThen (skip (uint (dataLen bh - 4 * 3 - 2 * 2))) (\<lambda>_. countChannel ls)
       else if layerBytes ls < 0 then runtimePanic
       else
         andThen (gets (\<lambda>d. length (tmpBuf d))) (\<lambda>cap.
         andThen (if cap < nat (layerBytes ls) then modify (makeTmpBuf (nat (layerBytes ls)))
                  else ret ()) (\<lambda>_.
         andThen (decompress zl cl (nat (layerBytes ls))) (\<lambda>_.
         andThen (scatter ct (nat (layerBytes ls)) ls) countChannel)))) d1 = Inr (t, d')"
    by (auto simp: channelStep_def andThen_Inr)
  show ?thesis
  proof (cases "bt \<noteq> dibImage")
    case True
    with s obtain d2 where "countChannel ls d2 = Inr (t, d')" by (auto simp: andThen_Inr)
    from countChannel_opaque [OF this assms(2)] show ?thesis .
  next
    case False
    with s obtain ls2 d3 d4 where sc: "scatter ct (nat (layerBytes ls)) ls d3 = Inr (ls2, d4)"
      and cc: "countChannel ls2 d4 = Inr (t, d')"
      by (auto simp: andThen_Inr split: if_splits)
    from assms(3) c False have "ct = 1 \<or> ct = 2 \<or> ct = 3" by blast
    from countChannel_opaque [OF cc scatter_opaque [OF sc this assms(2)]] show ?thesis .
  qed
qed

lemma decodeLayers_step_opaque:
  assumes "decodeLayers_step zl ls d = Inr (t, d')" and "opaqueInv ls" and "rgbChannel d"
  shows "case t of Continue ls' \<Rightarrow> opaqueInv ls' | Return (im, l) \<Rightarrow> opaqueImage im"
proof -
  from assms(1) obtain bh d1 where h: "readBlockHeader d = Inr (bh, d1)"
    and s: "(if bh_id bh = layerBlock then layerStep ls
       else if bh_id bh = channelBlock then channelStep zl bh ls
       else if bh_id bh = 33 then
         andThen (skip (uint (dataLen bh))) (\<lambda>_.
         andThen readUint32 (\<lambda>n.
         andThen (skip (uint n - 4)) (\<lambda>_. ret (Continue ls))))
       else andThen (skip (uint (dataLen bh))) (\<lambda>_. ret (Continue ls))) d1 = Inr (t, d')"
    by (auto simp: decodeLayers_step_def andThen_Inr)
  consider (l) "bh_id bh = layerBlock" | (c) "bh_id bh \<noteq> layerBlock" "bh_id bh = channelBlock"
    | (o) "bh_id bh \<noteq> layerBlock" "bh_id bh \<noteq> channelBlock" by blast
  then show ?thesis
  proof cases
    case l
    with s have "layerStep ls d1 = Inr (t, d')" by simp
    from layerStep_opaque [OF this assms(2)] show ?thesis .
  next
    case c
    with s have cs: "channelStep zl bh ls d1 = Inr (t, d')" by simp
    have "\<forall>cl ul bt ct d2. readChannelInfo d1 = Inr ((cl, ul, bt, ct), d2) \<longrightarrow> bt = dibImage
            \<longrightarrow> ct = 1 \<or> ct = 2 \<or> ct = 3"
      using assms(3) h c(2) by (auto simp: rgbChannel_def split: sum.splits)
    from channelStep_opaque [OF cs assms(2) this] show ?thesis .
  next
    case o
    with s have "t = Continue ls" by (auto simp: andThen_Inr split: if_splits)
    with assms(2) show ?thesis by simp
  qed
qed

lemma decodeLayers_loop_opaque:
  "decodeLayers_loop zl ls d = Inr ((im, l), d') \<Longrightarrow> opaqueInv ls \<Longrightarrow> rgbLayers zl ls d
     \<Longrightarrow> opaqueImage im"
proof (induction zl ls d rule: decodeLayers_loop.induct)
  case (1 zl ls d)
  from "1.prems"(1) obtain t d1 where s: "decodeLayers_step zl ls d = Inr (t, d1)"
    by (subst (asm) decodeLayers_loop.simps) (auto split: sum.splits)
  from "1.prems"(3) have c: "rgbChannel d" by (subst (asm) rgbLayers.simps) simp
  note i = decodeLayers_step_opaque [OF s "1.prems"(2) c]
  show ?case
  proof (cases t)
    case (Return r)
    with "1.prems"(1) s have "r = (im, l)" by (subst (asm) decodeLayers_loop.simps) simp
    with i Return show ?thesis by simp
  next
    case (Continue ls')
    with "1.prems"(1) s have r: "decodeLayers_loop zl ls' d1 = Inr ((im, l), d')"
      by (subst (asm) decodeLayers_loop.simps) simp
    from "1.prems"(3) s Continue have g: "rgbLayers zl ls' d1"
      by (subst (asm) rgbLayers.simps) simp
    from i Continue have "opaqueInv ls'" by simp
    from "1.IH" [OF s refl Continue r this g] show ?thesis .
  qed
qed

lemma decode_opaque:
  "decode zl d = Inr (i, d') \<Longrightarrow> rgbBlocks zl d \<Longrightarrow> opaqueImage i"
proof (induction zl d rule: decode.induct)
  case (1 zl d)
  from "1.prems"(1) obtain t d1 where s: "decode_step zl d = Inr (t, d1)"
    by (subst (asm) decode.simps) (auto split: sum.splits)
  then obtain bh d0 where h: "readBlockHeader d = Inr (bh, d0)"
    by (auto simp: decode_step_def andThen_Inr)
  show ?case
  proof (cases t)
    case (Return r)
    with "1.prems"(1) s have ri: "r = i" "d1 = d'" by (subst (asm) decode.simps, simp)+
    from s Return h obtain l where b: "bh_id bh = layerStartBlock"
      and dl: "decodeLayers zl d0 = Inr ((r, l), d1)"
      by (auto simp: decode_step_def andThen_Inr split: if_splits)
    from "1.prems"(2) h b have "rgbLayers zl zeroLstate d0"
      by (subst (asm) rgbBlocks.simps) simp
    from decodeLayers_loop_opaque [OF dl [unfolded decodeLayers_def] _ this] ri
    show ?thesis by simp
  next
    case (Continue u)
    with "1.prems"(1) s have r: "decode zl d1 = Inr (i, d')" by (subst (asm) decode.simps) simp
    from s Continue h have nb: "bh_id bh \<noteq> layerStartBlock"
      by (auto simp: decode_step_def andThen_Inr layerStartBlock_def extendedDataBlock_def
                     creatorBlock_def colorBlock_def
               split: if_splits prod.splits)
    with "1.prems"(2) h s Continue have "rgbBlocks zl d1"
      by (subst (asm) rgbBlocks.simps) simp
    from "1.IH" [OF s refl Continue r this] show ?thesis .
  qed
qed

section \<open>Properties\<close>
text \<open>
  C2, as the code has it. A channel decoded with the run-length setting is read item by
  item until at least \<open>compressedLayerLen\<close> bytes are consumed: the \<open>k\<close> bytes consumed
  are whole items, and no shorter prefix of at least \<open>compressedLayerLen\<close> bytes is, so
  that the reading stops at the first boundary between items at or behind the count
  (exactly at the count when the first \<open>compressedLayerLen\<close> bytes are whole items, and
  behind it when the last item passes the count: the loop only tests the count between
  items). The bytes written are the expansion of the items consumed, in order:
  \<open>c - 128\<close> copies of the next byte for a control byte \<open>c\<close> above 128, the next \<open>c\<close>
  bytes otherwise.
\<close>

theorem rle_decompress:
  assumes "comp_d d = compressionRLE" and "decompress zl n lb d = Inr (u, d')"
    and "lb \<le> length (tmpBuf d)"
  shows "\<exists>k out. nat n \<le> k \<and> k \<le> length (inp d) \<and> inp d' = drop k (inp d)
           \<and> rleExpand (take k (inp d)) = Some out
           \<and> take (length out) (tmpBuf d') = out
           \<and> (rleExpand (take (nat n) (inp d)) \<noteq> None \<longrightarrow> k = nat n)
           \<and> (\<forall>k'. nat n \<le> k' \<and> k' < k \<longrightarrow> rleExpand (take k' (inp d)) = None)"
proof -
  have ne: "compressionRLE \<noteq> compressionLZ77"
    by (simp add: compressionRLE_def compressionLZ77_def)
  from assms(1,2) ne obtain j where r: "rle n 0 lb d = Inr (j, d')"
    by (auto simp: decompress_def andThen_Inr)
  from rleGoal_all [unfolded rleGoal_def, rule_format, OF r assms(3) le0]
  obtain k out where k: "nat n \<le> k" "k \<le> length (inp d)" "inp d' = drop k (inp d)"
    "rleExpand (take k (inp d)) = Some out" "j = 0 + length out"
    "take j (tmpBuf d') = take 0 (tmpBuf d) @ out"
    "rleExpand (take (nat n) (inp d)) \<noteq> None \<longrightarrow> k = nat n"
    by blast
  from k(2,3) have "length (inp d) - length (inp d') = k" by simp
  with rle_minimal [OF r]
  have "\<forall>k'. nat n \<le> k' \<and> k' < k \<longrightarrow> rleExpand (take k' (inp d)) = None" by blast
  with k show ?thesis by auto
qed

theorem rle_decompress_counterexample:
  "rest_of (decompress noZlib 1 2) (rleDecoder [130, 7, 9]) = Some [9]
   \<and> [9] \<noteq> drop 1 [130, 7, 9 :: byte]"
  using rle_short_count by simp

theorem rle_decompress_witness:
  "comp_d (rleDecoder [130, 7, 2, 8, 9, 5]) = compressionRLE
   \<and> result_of (decompress noZlib 5 4) (rleDecoder [130, 7, 2, 8, 9, 5]) = Inr ()
   \<and> 4 \<le> length (tmpBuf (rleDecoder [130, 7, 2, 8, 9, 5]))
   \<and> rleExpand (take 5 [130, 7, 2, 8, 9, 5]) \<noteq> None
   \<and> rest_of (decompress noZlib 5 4) (rleDecoder [130, 7, 2, 8, 9, 5])
       = Some (drop 5 [130, 7, 2, 8, 9, 5])
   \<and> comp_d (rleDecoder [130, 7, 130, 8]) = compressionRLE
   \<and> result_of (decompress noZlib 1 2) (rleDecoder [130, 7, 130, 8]) = Inr ()
   \<and> 2 \<le> length (tmpBuf (rleDecoder [130, 7, 130, 8]))
   \<and> nat 1 \<le> 1 \<and> (1 :: nat) < 2 \<and> rleExpand (take 1 [130, 7, 130, 8]) = None
   \<and> rest_of (decompress noZlib 1 2) (rleDecoder [130, 7, 130, 8])
       = Some (drop 2 [130, 7, 130, 8])"
proof -
  let ?d = "rleDecoder [130, 7, 2, 8, 9, 5]"
  have c: "comp_d ?d = compressionRLE" by (simp add: rleDecoder_def)
  have l: "4 \<le> length (tmpBuf ?d)" by (simp add: rleDecoder_def decoderAt_def zeroDecoder_def)
  have i: "inp ?d = [130, 7, 2, 8, 9, 5]" by (simp add: rleDecoder_def decoderAt_def zeroDecoder_def)
  from rle_whole_items(1) obtain d' where r: "decompress noZlib 5 4 ?d = Inr ((), d')"
    by (auto simp: result_of_def split: sum.splits)
  have e: "rleExpand (take (nat 5) (inp ?d)) \<noteq> None" using rle_whole_items(3) by (simp add: i)
  from rle_decompress [OF c r l] e have "inp d' = drop (nat 5) (inp ?d)" by blast
  with r have A: "rest_of (decompress noZlib 5 4) ?d = Some (drop 5 [130, 7, 2, 8, 9, 5])"
    by (simp add: rest_of_def i)
  let ?e = "rleDecoder [130, 7, 130, 8]"
  have c2: "comp_d ?e = compressionRLE" by (simp add: rleDecoder_def)
  have l2: "2 \<le> length (tmpBuf ?e)" by (simp add: rleDecoder_def decoderAt_def zeroDecoder_def)
  have i2: "inp ?e = [130, 7, 130, 8]" by (simp add: rleDecoder_def decoderAt_def zeroDecoder_def)
  from rle_next_item(1) obtain e' where r2: "decompress noZlib 1 2 ?e = Inr ((), e')"
    by (auto simp: result_of_def split: sum.splits)
  from rle_decompress [OF c2 r2 l2] obtain k out where k: "nat 1 \<le> k" "k \<le> length (inp ?e)"
    "inp e' = drop k (inp ?e)" "rleExpand (take k (inp ?e)) = Some out"
    "\<forall>k'. nat 1 \<le> k' \<and> k' < k \<longrightarrow> rleExpand (take k' (inp ?e)) = None"
    by blast
  have "\<not> 2 < k"
  proof
    assume "2 < k"
    with k(5) have "rleExpand (take 2 (inp ?e)) = None" by simp
    with rle_next_item(3) show False by (simp add: i2)
  qed
  moreover have "k \<noteq> 1" using k(4) rle_next_item(2) by (auto simp: i2)
  ultimately have "k = 2" using k(1) by linarith
  with k(3) r2 have B: "rest_of (decompress noZlib 1 2) ?e = Some (drop 2 [130, 7, 130, 8])"
    by (simp add: rest_of_def i2)
  from c l rle_whole_items A c2 l2 rle_next_item B show ?thesis by simp
qed
text \<open>
  C3, as the code has it. The run-length loop has no check of its own on the output: it
  never gives a \<open>FormatError\<close>. A run that would store at or behind the expected byte
  count \<open>lb\<close> stops with the index fault of the Go runtime. A literal copy of \<open>c\<close> bytes
  faults exactly when it passes the capacity of the scratch array: inside the capacity
  it is stored and the loop goes on with the next item, whatever \<open>lb\<close> is, and when
  fewer than \<open>c\<close> bytes are left the loop stops with \<open>io.EOF\<close> or
  \<open>io.ErrUnexpectedEOF\<close>. In every file, whenever the run-length loop of a channel
  stops with the fault of the runtime, \<open>catchErrors\<close> raises it again, so that
  \<open>Decode\<close> panics and returns no error.
\<close>

theorem rle_overrun_faults:
  "rle n j lb d \<noteq> Inl (Err (FormatError m))
   \<and> (0 < n \<and> inp d = c # b # rest \<and> 128 < unat c \<and> lb < j + (unat c - 128)
      \<longrightarrow> rle n j lb d = Inl RuntimePanic)
   \<and> (0 < n \<and> inp d = c # rest' \<and> unat c \<le> 128 \<and> length (tmpBuf d) < j + unat c
      \<longrightarrow> rle n j lb d = Inl RuntimePanic)
   \<and> (0 < n \<and> inp d = c # rest' \<and> unat c \<le> 128 \<and> j + unat c \<le> length (tmpBuf d)
      \<and> unat c \<le> length rest'
      \<longrightarrow> (\<exists>d2. inp d2 = drop (unat c) rest'
             \<and> tmpBuf d2 = take j (tmpBuf d) @ take (unat c) rest'
                            @ drop (j + unat c) (tmpBuf d)
             \<and> rle n j lb d = rle (n - int (unat c) - 1) (j + unat c) lb d2))
   \<and> (0 < n \<and> inp d = c # rest' \<and> unat c \<le> 128 \<and> j + unat c \<le> length (tmpBuf d)
      \<and> length rest' < unat c
      \<longrightarrow> rle n j lb d = Inl (Err (if rest' = [] then io_EOF else io_ErrUnexpectedEOF)))
   \<and> (rleAborts zl r k i RuntimePanic \<longrightarrow> Decode zl r = Panicked)"
proof (intro conjI impI)
  show "rle n j lb d \<noteq> Inl (Err (FormatError m))" by (rule rle_no_FormatError)
next
  assume "0 < n \<and> inp d = c # b # rest \<and> 128 < unat c \<and> lb < j + (unat c - 128)"
  then show "rle n j lb d = Inl RuntimePanic" by (auto intro: rle_run_overrun)
next
  assume "0 < n \<and> inp d = c # rest' \<and> unat c \<le> 128 \<and> length (tmpBuf d) < j + unat c"
  then show "rle n j lb d = Inl RuntimePanic" by (auto intro: rle_literal_overrun)
next
  assume a: "0 < n \<and> inp d = c # rest' \<and> unat c \<le> 128 \<and> j + unat c \<le> length (tmpBuf d)
      \<and> unat c \<le> length rest'"
  show "\<exists>d2. inp d2 = drop (unat c) rest'
             \<and> tmpBuf d2 = take j (tmpBuf d) @ take (unat c) rest'
                            @ drop (j + unat c) (tmpBuf d)
             \<and> rle n j lb d = rle (n - int (unat c) - 1) (j + unat c) lb d2"
    by (rule rle_literal_stored) (use a in blast)+
next
  assume a: "0 < n \<and> inp d = c # rest' \<and> unat c \<le> 128 \<and> j + unat c \<le> length (tmpBuf d)
      \<and> length rest' < unat c"
  show "rle n j lb d = Inl (Err (if rest' = [] then io_EOF else io_ErrUnexpectedEOF))"
    by (rule rle_literal_short) (use a in blast)+
next
  assume "rleAborts zl r k i RuntimePanic"
  from rleAborts_Decode [OF this] show "Decode zl r = Panicked" by (simp add: catchErrors_def)
qed

theorem rle_overrun_faults_counterexample:
  "Decode noZlib rleOverrunFile = Panicked
   \<and> result_of (decompress noZlib 3 1) (rleDecoder [2, 8, 9]) = Inr ()"
  using rleOverrunFile_Decode rle_silent_literal by simp

theorem rle_overrun_faults_witness:
  "(0 :: int) < 2 \<and> inp (rleDecoder [130, 7]) = [130, 7] \<and> 128 < unat (130 :: byte)
   \<and> (1 :: nat) < 0 + (unat (130 :: byte) - 128)
   \<and> rle 2 0 1 (rleDecoder [130, 7]) = Inl RuntimePanic
   \<and> inp (rleDecoder [100, 7]) = [100, 7] \<and> unat (100 :: byte) \<le> 128
   \<and> length (tmpBuf (rleDecoder [100, 7])) < 0 + unat (100 :: byte)
   \<and> rle 2 0 1 (rleDecoder [100, 7]) = Inl RuntimePanic
   \<and> (0 :: int) < 3 \<and> inp (rleDecoder [2, 8, 9]) = [2, 8, 9]
   \<and> 0 + unat (2 :: byte) \<le> length (tmpBuf (rleDecoder [2, 8, 9]))
   \<and> unat (2 :: byte) \<le> length [8, 9 :: byte]
   \<and> result_of (rle 3 0 1) (rleDecoder [2, 8, 9]) = Inr 2
   \<and> inp (rleDecoder [2, 8]) = [2, 8]
   \<and> 0 + unat (2 :: byte) \<le> length (tmpBuf (rleDecoder [2, 8]))
   \<and> length [8 :: byte] < unat (2 :: byte)
   \<and> rle 3 0 1 (rleDecoder [2, 8]) = Inl (Err io_ErrUnexpectedEOF)
   \<and> rleAborts noZlib rleOverrunFile 0 1 RuntimePanic
   \<and> Decode noZlib rleOverrunFile = Panicked"
proof -
  have i: "inp (rleDecoder [130, 7]) = [130, 7]" "inp (rleDecoder [100, 7]) = [100, 7]"
    "inp (rleDecoder [2, 8, 9]) = [2, 8, 9]" "inp (rleDecoder [2, 8]) = [2, 8]"
    and t: "length (tmpBuf (rleDecoder [100, 7])) = 64"
    "length (tmpBuf (rleDecoder [2, 8, 9])) = 64" "length (tmpBuf (rleDecoder [2, 8])) = 64"
    by (simp_all add: rleDecoder_def decoderAt_def zeroDecoder_def)
  note T = rle_overrun_faults [where m = "[]" and zl = noZlib and r = rleOverrunFile
      and k = 0 and i = 1 and b = 7 and rest = "[]" and j = 0 and lb = 1]
  have a: "rle 2 0 1 (rleDecoder [130, 7]) = Inl RuntimePanic"
    using T [where n = 2 and d = "rleDecoder [130, 7]" and c = 130 and rest' = "[7]"] i
    by simp
  have b: "rle 2 0 1 (rleDecoder [100, 7]) = Inl RuntimePanic"
    using T [where n = 2 and d = "rleDecoder [100, 7]" and c = 100 and rest' = "[7]"] i t
    by simp
  have "\<exists>d2. rle 3 0 1 (rleDecoder [2, 8, 9])
              = rle (3 - int (unat (2 :: byte)) - 1) (0 + unat (2 :: byte)) 1 d2"
    using T [where n = 3 and d = "rleDecoder [2, 8, 9]" and c = 2 and rest' = "[8, 9]"] i t
    by auto
  then have c: "result_of (rle 3 0 1) (rleDecoder [2, 8, 9]) = Inr 2"
    by (auto simp: rle_stop result_of_def)
  have e: "rle 3 0 1 (rleDecoder [2, 8]) = Inl (Err io_ErrUnexpectedEOF)"
    using T [where n = 3 and d = "rleDecoder [2, 8]" and c = 2 and rest' = "[8]"] i t
    by simp
  have f: "Decode noZlib rleOverrunFile = Panicked"
    using T [where n = 3 and d = "rleDecoder [2, 8]" and c = 2 and rest' = "[8]"]
      rleOverrunFile_rleAborts by simp
  from a b c e f i t rleOverrunFile_rleAborts show ?thesis by simp
qed




text \<open>
  C5 fails on the code in two places. In a file of version 3 the four fields of a channel
  sub-block take twelve bytes, but the length skipped for a bitmap that is not the image
  is \<open>dataLen - 16\<close> as from version 4 on: the input stops four bytes in front of the
  next sub-block header, and \<open>Decode\<close> of a file that version 5 decodes ends with
  \<open>bad block magic\<close>. And the pixel array of a paletted image of depth 8 is the scratch
  array itself: the header and the fields of a mask channel that follows the image channel
  are read over the first pixels (indices 1 and 1 come back as 0 and 0).
\<close>

theorem non_image_channel_skip:
  "rest_of readBlockHeader (decoderAt 3 maskBlock3)
     = Some [8, 0, 0, 0, 8, 0, 0, 0, 1, 0, 0, 0, 1, 2, 3, 4, 5, 6, 7, 8, 126, 66, 75, 0]
   \<and> rest_of (decodeLayers_step noZlib zeroLstate) (decoderAt 3 maskBlock3)
       = Some [5, 6, 7, 8, 126, 66, 75, 0]
   \<and> Decode noZlib maskFile3 = Returned None (Some (FormatError ''bad block magic''))
   \<and> Decode noZlib maskFile5
       = Returned (Some (ImageRGBA \<lparr>Pix = [17, 34, 51, 255], Stride = 4,
           Rect_i = \<lparr>MinX = 0, MinY = 0, MaxX = 1, MaxY = 1\<rparr>\<rparr>)) None
   \<and> Decode noZlib palFileA
       = Returned (Some (ImagePaletted \<lparr>Pix = [0, 0], Stride = 2,
           Rect_i = \<lparr>MinX = 0, MinY = 0, MaxX = 2, MaxY = 1\<rparr>\<rparr>
           [RGBA 0 0 0 255, RGBA 255 255 255 255])) None
   \<and> Decode noZlib palFileB
       = Returned (Some (ImagePaletted \<lparr>Pix = [1, 1], Stride = 2,
           Rect_i = \<lparr>MinX = 0, MinY = 0, MaxX = 2, MaxY = 1\<rparr>\<rparr>
           [RGBA 0 0 0 255, RGBA 255 255 255 255])) None"
  using maskBlock3_step maskFile3_Decode maskFile5_Decode palFileA_Decode palFileB_Decode
  by simp



text \<open>
  C8, as the code has it: a colour palette block that decodes leaves a palette with one
  entry for each group of four bytes behind the colour count: red is the third byte, green
  the second, blue the first, and alpha is 255; the fourth byte of no group occurs in the
  palette. That byte stays in the scratch array, though, and the pixels of a paletted
  image are a part of that array: it can come back as a pixel of the image that
  \<open>Decode\<close> returns.
\<close>

theorem palette_entries:
  assumes "decodeColorBlock ln d = Inr (u, d')"
  shows "\<exists>off n. off = (if versionMajor d \<ge> 4 then 8 else 4)
           \<and> n = unat (decodeUint32 (subslice (inp d) (off - 4) off))
           \<and> off + 4 * n \<le> length (inp d)
           \<and> inp d' = drop (off + 4 * n) (inp d)
           \<and> palette d' = Some (map (\<lambda>i. RGBA (inp d ! (off + 4 * i + 2)) (inp d ! (off + 4 * i + 1))
                                              (inp d ! (off + 4 * i)) 255) [0..<n])"
proof -
  define off :: nat where "off = (if versionMajor d \<ge> 4 then 8 else 4)"
  from assms obtain u1 d1 nc d2 u3 d3 u4 d4 where
    a: "(if versionMajor d \<ge> 4 then andThen readUint32 (\<lambda>_. ret ()) else ret ()) d = Inr (u1, d1)"
    and b: "readUint32 d1 = Inr (nc, d2)"
    and c: "(if length (tmpBuf d2) < unat nc * 4 then modify (makeTmpBuf (unat nc * 4)) else ret ()) d2 = Inr (u3, d3)"
    and e: "read (unat nc * 4) d3 = Inr (u4, d4)"
    and f: "d' = d4\<lparr>palette := Some (map (paletteEntry (tmpBuf d4)) [0..<unat nc])\<rparr>"
    unfolding decodeColorBlock_def by (auto simp: andThen_Inr)
  from a have d1: "inp d1 = drop (off - 4) (inp d)" "off - 4 \<le> length (inp d)"
    by (auto simp: off_def andThen_Inr split: if_splits dest!: readUint32_effect)
  from readUint32_effect [OF b] have d2: "inp d2 = drop 4 (inp d1)" "4 \<le> length (inp d1)"
    and nc: "nc = decodeUint32 (subslice (inp d1) 0 4)" by auto
  from c have d3: "inp d3 = inp d2" by (auto split: if_splits)
  from read_effect [OF e] have d4: "inp d4 = drop (unat nc * 4) (inp d3)"
    and len: "unat nc * 4 \<le> length (inp d3)"
    and tb: "tmpBuf d4 = take (unat nc * 4) (inp d3) @ drop (unat nc * 4) (tmpBuf d3)" by auto
  have off4: "off - 4 + 4 = off" by (simp add: off_def)
  have i3: "inp d3 = drop off (inp d)" using d1 d2 d3 off4 by (simp add: add.commute)
  have n: "unat nc = unat (decodeUint32 (subslice (inp d) (off - 4) off))"
    using nc d1 by (simp add: subslice_def off_def)
  have le: "off + 4 * unat nc \<le> length (inp d)" using len i3 d1 d2 off4 by simp
  have pe: "paletteEntry (tmpBuf d4) i = RGBA (inp d ! (off + 4 * i + 2)) (inp d ! (off + 4 * i + 1))
                                              (inp d ! (off + 4 * i)) 255" if "i < unat nc" for i
  proof -
    have "i * 4 + 2 < unat nc * 4" "i * 4 + 1 < unat nc * 4" "i * 4 < unat nc * 4" using that by auto
    then show ?thesis using le
      by (simp add: paletteEntry_def tb nth_append i3 add.commute mult.commute add.left_commute)
  qed
  have "palette d' = Some (map (\<lambda>i. RGBA (inp d ! (off + 4 * i + 2)) (inp d ! (off + 4 * i + 1))
                                              (inp d ! (off + 4 * i)) 255) [0..<unat nc])"
    using f pe by simp
  moreover have "inp d' = drop (off + 4 * unat nc) (inp d)" using f d4 i3 by (simp add: add.commute mult.commute)
  ultimately show ?thesis using n le unfolding off_def by auto
qed

theorem palette_entries_witness:
  "\<exists>d'. decodeColorBlock 12
          ((zeroDecoder [8, 0, 0, 0, 1, 0, 0, 0, 10, 20, 30, 77])\<lparr>versionMajor := 5\<rparr>)
          = Inr ((), d')
        \<and> palette d' = Some [RGBA 30 20 10 255]"
proof -
  let ?d = "(zeroDecoder [8, 0, 0, 0, 1, 0, 0, 0, 10, 20, 30, 77])\<lparr>versionMajor := 5\<rparr>"
  have "case decodeColorBlock 12 ?d of Inl e \<Rightarrow> False | Inr r \<Rightarrow> True"
    by code_simp
  then obtain d' where h: "decodeColorBlock 12 ?d = Inr ((), d')"
    by (auto split: sum.splits)
  have v: "versionMajor ?d = 5" and i: "inp ?d = [8, 0, 0, 0, 1, 0, 0, 0, 10, 20, 30, 77]"
    by (simp_all add: zeroDecoder_def)
  from palette_entries [OF h]
  have "palette d' = Some [RGBA 30 20 10 255]"
    by (simp add: v i subslice_def decodeUint32_def)
  with h show ?thesis by blast
qed

theorem palette_entries_counterexample:
  "padFileB = padFileA[125 := 77]
   \<and> Decode noZlib padFileA = Returned (Some (ImagePaletted
        \<lparr>Pix = [0, 0, 0, 0, 5, 0, 16, 0, 0, 0, 0, 0, 0, 0, 0, 0, 13, 14, 15, 0], Stride = 20,
         Rect_i = \<lparr>MinX = 0, MinY = 0, MaxX = 20, MaxY = 1\<rparr>\<rparr>
        [RGBA 3 2 1 255, RGBA 6 5 4 255, RGBA 9 8 7 255, RGBA 12 11 10 255,
         RGBA 15 14 13 255])) None
   \<and> Decode noZlib padFileB = Returned (Some (ImagePaletted
        \<lparr>Pix = [0, 0, 0, 0, 5, 0, 16, 0, 0, 0, 0, 0, 0, 0, 0, 0, 13, 14, 15, 77], Stride = 20,
         Rect_i = \<lparr>MinX = 0, MinY = 0, MaxX = 20, MaxY = 1\<rparr>\<rparr>
        [RGBA 3 2 1 255, RGBA 6 5 4 255, RGBA 9 8 7 255, RGBA 12 11 10 255,
         RGBA 15 14 13 255])) None"
  using padFileB_padFileA padFileA_Decode padFileB_Decode by simp

text \<open>
  C9, as the code has it: in a file of a version below 4 the layer name is read as exactly
  256 bytes and \<open>strings.TrimSpace\<close> removes the white space at both ends. The name
  returned is a part of those bytes that has white space neither at its start nor at its
  end. (The claim keeps leading white space; the counterexample is a name that starts with
  a space.)
\<close>

theorem legacy_layer_name:
  assumes "versionMajor d < 4" and "readLayerName d = Inr (nm, d')"
  shows "256 \<le> length (inp d) \<and> inp d' = drop 256 (inp d)
         \<and> nm = TrimSpace (take 256 (inp d))
         \<and> leadingSpace nm = 0 \<and> trailingSpace nm = 0
         \<and> (\<exists>l r. take 256 (inp d) = l @ nm @ r)"
proof -
  from assms obtain s where s: "readString 256 d = Inr (s, d')" and nm: "nm = TrimSpace s"
    by (auto simp: readLayerName_def andThen_Inr not_le [symmetric])
  from readString_effect [OF s] have "256 \<le> length (inp d)" "s = take 256 (inp d)"
    "inp d' = drop 256 (inp d)" by auto
  with nm TrimSpace_props [of s] show ?thesis by simp
qed

theorem legacy_layer_name_counterexample:
  "result_of readLayerName (decoderAt 3 (32 # 65 # replicate 254 32)) = Inr [65]"
  by (rule legacy_name_eval)

theorem legacy_layer_name_witness:
  "versionMajor (decoderAt 3 (32 # 65 # replicate 254 32)) < 4
   \<and> result_of readLayerName (decoderAt 3 (32 # 65 # replicate 254 32)) = Inr [65]
   \<and> leadingSpace [65] = 0"
proof -
  let ?d = "decoderAt 3 (32 # 65 # replicate 254 32)"
  have v: "versionMajor ?d < 4" by (simp add: decoderAt_def)
  have r: "result_of readLayerName ?d = Inr [65]" by (rule legacy_name_eval)
  then obtain d' where h: "readLayerName ?d = Inr ([65], d')"
    by (auto simp: result_of_def split: sum.splits)
  from legacy_layer_name [OF v h] have "leadingSpace [65] = 0" by blast
  with v r show ?thesis by blast
qed

text \<open>
  C10: whenever \<open>Decode\<close> returns an error that is not nil, the image it returns is nil.
\<close>

theorem Decode_error_no_image:
  assumes "Decode zl r = Returned i e" and "e \<noteq> None"
  shows "i = None"
  using assms
  by (auto simp: Decode_def catchErrors_def split: sum.splits abort.splits prod.splits)

theorem Decode_error_no_image_witness:
  "Decode noZlib [] = Returned None (Some io_EOF) \<and> Some io_EOF \<noteq> None
   \<and> (None :: image option) = None"
proof -
  have h: "Decode noZlib [] = Returned None (Some io_EOF)"
    by code_simp
  from Decode_error_no_image [OF h] h show ?thesis by simp
qed

end
